theory Spec2Isabelle
  imports Main "HOL-Library.Sublist" "HOL-Library.Multiset" "HOL-Library.Word"
    "HOL-Library.Char_ord" "HOL-Library.List_Lexorder"
begin

section \<open>Numbers and their decimal text\<close>

text \<open>
  Attribute values of the document are strings. The mastering code writes numbers with
  \<^verbatim>\<open>String(n)\<close> and reads them back with \<^verbatim>\<open>getNumericAttribute\<close>
  (\<^verbatim>\<open>Number(value)\<close>). The quantities handled here (scores, answer counts, ids) are
  integers; \<open>NumberOf\<close> is \<open>None\<close> on any text that is not a plain decimal integer
  literal, which is where this model stops following JavaScript's \<^verbatim>\<open>Number\<close>.
\<close>

definition digit_char :: "nat \<Rightarrow> char" where
  "digit_char d = char_of (48 + d)"

function nat_digits :: "nat \<Rightarrow> string" where
  "nat_digits n = (if n < 10 then [digit_char n] else nat_digits (n div 10) @ [digit_char (n mod 10)])"
  by pat_completeness auto
termination
  by (relation "measure id") auto

declare nat_digits.simps [simp del]

definition StringOf :: "int \<Rightarrow> string" where
  "StringOf i = (if i < 0 then CHR ''-'' # nat_digits (nat (- i)) else nat_digits (nat i))"

definition is_digit :: "char \<Rightarrow> bool" where
  "is_digit c = (48 \<le> (of_char c :: nat) \<and> (of_char c :: nat) \<le> 57)"

definition digit_val :: "char \<Rightarrow> nat" where
  "digit_val c = (of_char c :: nat) - 48"

definition parse_digits :: "string \<Rightarrow> nat option" where
  "parse_digits ds =
     (if ds \<noteq> [] \<and> list_all is_digit ds
      then Some (foldl (\<lambda>a c. 10 * a + digit_val c) 0 ds) else None)"

definition NumberOf :: "string \<Rightarrow> int option" where
  "NumberOf s =
     (case s of
        [] \<Rightarrow> None
      | c # ds \<Rightarrow>
          if c = CHR ''-'' then map_option (\<lambda>n. - int n) (parse_digits ds)
          else map_option int (parse_digits s))"

section \<open>The document: a tree of nodes and a store of attributes\<close>

text \<open>
  The source works on a libxmljs2 DOM that it mutates in place, through element
  references held in the parsed \<^verbatim>\<open>Exam\<close> structure. Every node carries a reference
  \<open>ref\<close> here; attributes live in a store indexed by the element's reference, so that
  \<^verbatim>\<open>element.attr(name, value)\<close> is an update of the store.
\<close>

type_synonym ref = nat

datatype nsp = NsE | NsXhtml

datatype node =
    Element ref nsp string "node list"
  | Text ref string
  | Comment ref string

type_synonym store = "ref \<Rightarrow> string \<Rightarrow> string option"

definition attr_get :: "store \<Rightarrow> ref \<Rightarrow> string \<Rightarrow> string option" where
  "attr_get st r name = st r name"

definition attr_set :: "ref \<Rightarrow> string \<Rightarrow> string \<Rightarrow> store \<Rightarrow> store" where
  "attr_set r name v st = st(r := (st r)(name \<mapsto> v))"

definition attr_remove :: "ref \<Rightarrow> string \<Rightarrow> store \<Rightarrow> store" where
  "attr_remove r name st = st(r := (st r)(name := None))"

text \<open>
  Modelled from the spec: \<^verbatim>\<open>getAttribute\<close> and \<^verbatim>\<open>getNumericAttribute\<close> of
  \<^verbatim>\<open>./utils\<close> are not under src/. With a default they return the default when the
  attribute is absent; \<open>getNumericAttribute\<close> converts a present value with
  \<^verbatim>\<open>Number\<close>. The result is \<open>None\<close> when the attribute is absent (the caller supplies
  the default, or fails where the source passes none) or when its text is outside the
  integer model.
\<close>

definition getAttribute :: "string \<Rightarrow> ref \<Rightarrow> store \<Rightarrow> string option" where
  "getAttribute name r st = attr_get st r name"

definition getNumericAttribute :: "string \<Rightarrow> ref \<Rightarrow> store \<Rightarrow> int option" where
  "getNumericAttribute name r st = Option.bind (attr_get st r name) NumberOf"

section \<open>The parsed exam structure\<close>

datatype answer = Answer (a_element: ref) (a_question: ref)

datatype question =
  Question (q_element: ref) (childQuestions: "question list") (q_answers: "answer list")

datatype sectionT = Section (s_element: ref) (s_questions: "question list")

record exam =
  e_element :: ref
  sections :: "sectionT list"
  questions :: "question list"
  topLevelQuestions :: "question list"
  answers :: "answer list"

section \<open>Section limits: countSectionMaxAndMinAnswers\<close>

definition clamp :: "int \<Rightarrow> int \<Rightarrow> int \<Rightarrow> int" where
  "clamp number lower upper =
     (let n1 = (if number \<le> upper then number else upper)
      in if n1 \<ge> lower then n1 else lower)"

definition defaultSectionMaxAnswers :: "int \<Rightarrow> sectionT \<Rightarrow> store \<Rightarrow> store" where
  "defaultSectionMaxAnswers examMaxAnswers s st =
     (if attr_get st (s_element s) ''max-answers'' = None
      then attr_set (s_element s) ''max-answers''
             (StringOf (min (int (length (s_questions s))) examMaxAnswers)) st
      else st)"

text \<open>The sum of \<^verbatim>\<open>max-answers\<close> over a list of sections; \<open>None\<close> if one cannot be read.\<close>

fun sumMaxAnswers :: "sectionT list \<Rightarrow> store \<Rightarrow> int option" where
  "sumMaxAnswers [] st = Some 0"
| "sumMaxAnswers (s # ss) st =
     (case getNumericAttribute ''max-answers'' (s_element s) st of
        None \<Rightarrow> None
      | Some m \<Rightarrow> map_option (\<lambda>t. m + t) (sumMaxAnswers ss st))"

text \<open>
  \<^verbatim>\<open>exam.sections.filter((s) => s !== section)\<close> compares object identities: the other
  sections are those at the other positions of the list.
\<close>

definition otherSections :: "sectionT list \<Rightarrow> nat \<Rightarrow> sectionT list" where
  "otherSections ss i = take i ss @ drop (Suc i) ss"

definition setSectionMinAnswers :: "int \<Rightarrow> sectionT list \<Rightarrow> nat \<Rightarrow> store \<Rightarrow> store option" where
  "setSectionMinAnswers examMaxAnswers ss i st =
     (case getNumericAttribute ''max-answers'' (s_element (ss ! i)) st of
        None \<Rightarrow> None
      | Some maxAnswers \<Rightarrow>
          (case sumMaxAnswers (otherSections ss i) st of
             None \<Rightarrow> None
           | Some otherSectionMaxAnswers \<Rightarrow>
               Some (attr_set (s_element (ss ! i)) ''min-answers''
                       (StringOf (clamp maxAnswers 0 (examMaxAnswers - otherSectionMaxAnswers))) st)))"

fun forEachOpt :: "('a \<Rightarrow> store \<Rightarrow> store option) \<Rightarrow> 'a list \<Rightarrow> store \<Rightarrow> store option" where
  "forEachOpt f [] st = Some st"
| "forEachOpt f (x # xs) st = (case f x st of None \<Rightarrow> None | Some st' \<Rightarrow> forEachOpt f xs st')"

definition countSectionMaxAndMinAnswers :: "exam \<Rightarrow> store \<Rightarrow> store option" where
  "countSectionMaxAndMinAnswers ex st =
     (case attr_get st (e_element ex) ''max-answers'' of
        None \<Rightarrow> Some st
      | Some txt \<Rightarrow>
          (case NumberOf txt of
             None \<Rightarrow> None
           | Some examMaxAnswers \<Rightarrow>
               if examMaxAnswers = 0 then Some st
               else
                 let st1 = fold (defaultSectionMaxAnswers examMaxAnswers) (sections ex) st
                 in forEachOpt (setSectionMinAnswers examMaxAnswers (sections ex))
                      [0..<length (sections ex)] st1))"


text \<open>
  What a section's \<^verbatim>\<open>max-answers\<close> is once the first loop has run: the declared value,
  or else the default \<^verbatim>\<open>Math.min(section.questions.length, examMaxAnswers)\<close>.
\<close>

definition sectionMaxAnswers :: "int \<Rightarrow> store \<Rightarrow> sectionT \<Rightarrow> int" where
  "sectionMaxAnswers examMaxAnswers st s =
     (case getNumericAttribute ''max-answers'' (s_element s) st of
        Some m \<Rightarrow> m
      | None \<Rightarrow> min (int (length (s_questions s))) examMaxAnswers)"

definition exam0 :: exam where
  "exam0 = \<lparr> e_element = 0,
             sections = [Section 1 [Question 2 [] [Answer 3 2]]],
             questions = [Question 2 [] [Answer 3 2]],
             topLevelQuestions = [Question 2 [] [Answer 3 2]],
             answers = [Answer 3 2] \<rparr>"

definition emptyStore :: store where
  "emptyStore = (\<lambda>r n. None)"

definition minAnswersText :: "int \<Rightarrow> store \<Rightarrow> sectionT list \<Rightarrow> nat \<Rightarrow> string" where
  "minAnswersText M st ss i =
     StringOf (clamp (sectionMaxAnswers M st (ss ! i)) 0
                (M - sum_list (map (sectionMaxAnswers M st) (otherSections ss i))))"

definition store0 :: store where
  "store0 = emptyStore(0 := [''max-answers'' \<mapsto> ''0''])"

definition examW :: exam where
  "examW = \<lparr> e_element = 0,
             sections = [Section 1 [Question 3 [] [Answer 4 3], Question 5 [] [Answer 6 5]],
                         Section 2 [Question 7 [] [Answer 8 7]]],
             questions = [Question 3 [] [Answer 4 3], Question 5 [] [Answer 6 5],
                          Question 7 [] [Answer 8 7]],
             topLevelQuestions = [Question 3 [] [Answer 4 3], Question 5 [] [Answer 6 5],
                          Question 7 [] [Answer 8 7]],
             answers = [Answer 4 3, Answer 6 5, Answer 8 7] \<rparr>"

definition storeW :: store where
  "storeW = emptyStore(0 := [''max-answers'' \<mapsto> ''3''], 2 := [''max-answers'' \<mapsto> ''2''])"

section \<open>Reading the tree\<close>

fun ref_of :: "node \<Rightarrow> ref" where
  "ref_of (Element r ns nm ks) = r"
| "ref_of (Text r t) = r"
| "ref_of (Comment r t) = r"

fun childNodes :: "node \<Rightarrow> node list" where
  "childNodes (Element r ns nm ks) = ks"
| "childNodes (Text r t) = []"
| "childNodes (Comment r t) = []"

text \<open>\<^verbatim>\<open>element.name()\<close>: the local name, whatever the namespace.\<close>

fun name_of :: "node \<Rightarrow> string" where
  "name_of (Element r ns nm ks) = nm"
| "name_of (Text r t) = ''text''"
| "name_of (Comment r t) = ''comment''"

text \<open>The XPath name test \<^verbatim>\<open>e:name\<close>, for one of several names.\<close>

fun isE :: "string list \<Rightarrow> node \<Rightarrow> bool" where
  "isE names (Element r NsE nm ks) = (nm \<in> set names)"
| "isE names _ = False"

text \<open>The element a reference points to, in the present tree.\<close>

fun lookup :: "ref \<Rightarrow> node \<Rightarrow> node option"
  and lookup_list :: "ref \<Rightarrow> node list \<Rightarrow> node option" where
  "lookup r (Element r' ns nm ks) =
     (if r = r' then Some (Element r' ns nm ks) else lookup_list r ks)"
| "lookup r (Text r' t) = (if r = r' then Some (Text r' t) else None)"
| "lookup r (Comment r' t) = (if r = r' then Some (Comment r' t) else None)"
| "lookup_list r [] = None"
| "lookup_list r (k # ks) =
     (case lookup r k of Some n \<Rightarrow> Some n | None \<Rightarrow> lookup_list r ks)"

text \<open>\<^verbatim>\<open>element.find('./e:a | ./e:b')\<close>: the matching children, in document order.\<close>

definition findChildren :: "string list \<Rightarrow> node \<Rightarrow> node list" where
  "findChildren names el = filter (isE names) (childNodes el)"

section \<open>Max-score phase: updateMaxScoresToAnswers\<close>

definition scoredAnswerNames :: "string list" where
  "scoredAnswerNames = [''choice-answer'', ''dropdown-answer'', ''scored-text-answer'']"

definition scoreCarrierNames :: "string list" where
  "scoreCarrierNames = [''choice-answer-option'', ''dropdown-answer-option'', ''accepted-answer'']"

text \<open>\<^verbatim>\<open>getNumericAttribute('score', option, 0)\<close> over the options found.\<close>

fun collectScores :: "node list \<Rightarrow> store \<Rightarrow> int list option" where
  "collectScores [] st = Some []"
| "collectScores (k # ks) st =
     (case (case attr_get st (ref_of k) ''score'' of None \<Rightarrow> Some 0 | Some t \<Rightarrow> NumberOf t) of
        None \<Rightarrow> None
      | Some v \<Rightarrow> map_option ((#) v) (collectScores ks st))"

text \<open>
  \<^verbatim>\<open>String(_.max(scores))\<close>: lodash's \<^verbatim>\<open>max\<close> of an empty array is
  \<^verbatim>\<open>undefined\<close>, whose text is \<^verbatim>\<open>"undefined"\<close>.
\<close>

fun maxText :: "int list \<Rightarrow> string" where
  "maxText [] = ''undefined''"
| "maxText (x # xs) = StringOf (fold max xs x)"

definition updateMaxScoreToAnswer :: "node \<Rightarrow> answer \<Rightarrow> store \<Rightarrow> store option" where
  "updateMaxScoreToAnswer tree a st =
     (case lookup (a_element a) tree of
        None \<Rightarrow> Some st
      | Some el \<Rightarrow>
          if name_of el \<in> set scoredAnswerNames \<and> attr_get st (a_element a) ''max-score'' = None
          then (case collectScores (findChildren scoreCarrierNames el) st of
                  None \<Rightarrow> None
                | Some scores \<Rightarrow> Some (attr_set (a_element a) ''max-score'' (maxText scores) st))
          else Some st)"

definition updateMaxScoresToAnswers :: "node \<Rightarrow> exam \<Rightarrow> store \<Rightarrow> store option" where
  "updateMaxScoresToAnswers tree ex st = forEachOpt (updateMaxScoreToAnswer tree) (answers ex) st"

text \<open>The score an option counts for: its \<^verbatim>\<open>score\<close> attribute, or 0 without one.\<close>

definition optionScore :: "store \<Rightarrow> node \<Rightarrow> int" where
  "optionScore st k = (case getNumericAttribute ''score'' (ref_of k) st of None \<Rightarrow> 0 | Some v \<Rightarrow> v)"

definition scoresReadable :: "store \<Rightarrow> node list \<Rightarrow> bool" where
  "scoresReadable st ks =
     list_all (\<lambda>k. case attr_get st (ref_of k) ''score'' of None \<Rightarrow> True
                   | Some t \<Rightarrow> NumberOf t \<noteq> None) ks"

definition maxScoreTarget :: "node \<Rightarrow> answer list \<Rightarrow> ref \<Rightarrow> bool" where
  "maxScoreTarget tree as r =
     (\<exists>a \<in> set as. a_element a = r \<and>
        (\<exists>el. lookup r tree = Some el \<and> name_of el \<in> set scoredAnswerNames))"

definition tree0 :: node where
  "tree0 = Element 0 NsE ''exam''
     [Element 1 NsE ''section'' [Element 2 NsE ''question'' [Element 3 NsE ''choice-answer'' []]]]"

definition answerW :: node where
  "answerW = Element 3 NsE ''choice-answer''
               [Element 4 NsE ''choice-answer-option'' [Text 7 ''a''],
                Element 5 NsE ''choice-answer-option'' [Text 8 ''b''],
                Element 6 NsE ''choice-answer-option'' [Text 9 ''c'']]"

definition treeS :: node where
  "treeS = Element 0 NsE ''exam''
     [Element 1 NsE ''section'' [Element 2 NsE ''question'' [answerW]]]"

definition storeS :: store where
  "storeS = emptyStore(4 := [''score'' \<mapsto> ''2''], 6 := [''score'' \<mapsto> ''-1''])"

section \<open>Propagation phase: countMaxScores\<close>

text \<open>
  A max-score read by this phase may be one that an earlier pass wrote as
  \<^verbatim>\<open>String(undefined)\<close>, and the phase itself writes \<^verbatim>\<open>String(NaN)\<close> once it has read
  one: \<^verbatim>\<open>Number\<close> of either text is \<^verbatim>\<open>NaN\<close>. The numbers of this phase are therefore the
  integers and \<^verbatim>\<open>NaN\<close>. A sum with \<^verbatim>\<open>NaN\<close> is \<^verbatim>\<open>NaN\<close>, and lodash's
  \<^verbatim>\<open>compareAscending\<close> puts \<^verbatim>\<open>NaN\<close> after every number, so that it comes first in a
  descending order.
\<close>

datatype jsnum = Num int | NaN

instantiation jsnum :: comm_monoid_add
begin

definition zero_jsnum :: jsnum where
  "zero_jsnum = Num 0"

fun plus_jsnum :: "jsnum \<Rightarrow> jsnum \<Rightarrow> jsnum" where
  "plus_jsnum (Num a) (Num b) = Num (a + b)"
| "plus_jsnum (Num a) NaN = NaN"
| "plus_jsnum NaN b = NaN"

instance
proof (standard, goal_cases)
  case (1 u v w)
  show ?case by (cases u; cases v; cases w; simp)
next
  case (2 u v)
  show ?case by (cases u; cases v; simp)
next
  case (3 u)
  show ?case by (cases u; simp add: zero_jsnum_def)
qed

end

instantiation jsnum :: linorder
begin

fun less_eq_jsnum :: "jsnum \<Rightarrow> jsnum \<Rightarrow> bool" where
  "less_eq_jsnum (Num a) (Num b) = (a \<le> b)"
| "less_eq_jsnum (Num a) NaN = True"
| "less_eq_jsnum NaN (Num b) = False"
| "less_eq_jsnum NaN NaN = True"

definition less_jsnum :: "jsnum \<Rightarrow> jsnum \<Rightarrow> bool" where
  "less_jsnum x y = (x \<le> y \<and> \<not> y \<le> x)"

instance
proof
  fix x y z :: jsnum
  show "(x < y) = (x \<le> y \<and> \<not> y \<le> x)"
    by (simp add: less_jsnum_def)
  show "x \<le> x"
    by (cases x) simp_all
  show "x \<le> y \<Longrightarrow> y \<le> z \<Longrightarrow> x \<le> z"
    by (cases x; cases y; cases z) simp_all
  show "x \<le> y \<Longrightarrow> y \<le> x \<Longrightarrow> x = y"
    by (cases x; cases y) simp_all
  show "x \<le> y \<or> y \<le> x"
    by (cases x; cases y) auto
qed

end

definition StringJs :: "jsnum \<Rightarrow> string" where
  "StringJs x = (case x of Num i \<Rightarrow> StringOf i | NaN \<Rightarrow> ''NaN'')"

definition NumberJs :: "string \<Rightarrow> jsnum option" where
  "NumberJs s =
     (if s = ''NaN'' \<or> s = ''undefined'' then Some NaN else map_option Num (NumberOf s))"

text \<open>
  \<^verbatim>\<open>getNumericAttribute\<close> again, for the max-scores of this phase: the value is a number
  of the kind above. It is \<open>None\<close> when the attribute is absent (the source passes no
  default here) or its text is neither an integer literal nor one of the two texts of
  \<^verbatim>\<open>NaN\<close>.
\<close>

definition getNumericAttributeJs :: "string \<Rightarrow> ref \<Rightarrow> store \<Rightarrow> jsnum option" where
  "getNumericAttributeJs name r st = Option.bind (attr_get st r name) NumberJs"

text \<open>
  \<^verbatim>\<open>_.orderBy(xs, key, 'desc')\<close> is a stable sort: larger keys first, equal keys in
  their original order.
\<close>

fun insertDesc :: "('a \<Rightarrow> 'b :: linorder) \<Rightarrow> 'a \<Rightarrow> 'a list \<Rightarrow> 'a list" where
  "insertDesc key x [] = [x]"
| "insertDesc key x (y # ys) = (if key y > key x then y # insertDesc key x ys else x # y # ys)"

definition orderByDesc :: "('a \<Rightarrow> 'b :: linorder) \<Rightarrow> 'a list \<Rightarrow> 'a list" where
  "orderByDesc key xs = foldr (insertDesc key) xs []"

text \<open>\<^verbatim>\<open>getNumericAttribute('max-score', a.element)\<close> over a list of elements.\<close>

fun readMaxScores :: "ref list \<Rightarrow> store \<Rightarrow> jsnum list option" where
  "readMaxScores [] st = Some []"
| "readMaxScores (r # rs) st =
     (case getNumericAttributeJs ''max-score'' r st of
        None \<Rightarrow> None
      | Some v \<Rightarrow> map_option ((#) v) (readMaxScores rs st))"

text \<open>
  \<^verbatim>\<open>getNumericAttribute('max-answers', element, null)\<close>: \<open>Some None\<close> is the
  \<^verbatim>\<open>null\<close> of an absent attribute, \<open>None\<close> a text outside the integer model.
\<close>

definition readMaxAnswers :: "ref \<Rightarrow> store \<Rightarrow> int option option" where
  "readMaxAnswers r st =
     (case attr_get st r ''max-answers'' of
        None \<Rightarrow> Some None
      | Some t \<Rightarrow> (case NumberOf t of None \<Rightarrow> None | Some k \<Rightarrow> Some (Some k)))"

text \<open>\<^verbatim>\<open>maxAnswers ?? answerables.length\<close>, as the count \<^verbatim>\<open>_.take\<close> uses.\<close>

definition takeCount :: "int option \<Rightarrow> nat \<Rightarrow> nat" where
  "takeCount maxAnswers n = (case maxAnswers of None \<Rightarrow> n | Some k \<Rightarrow> nat k)"

definition topSum :: "int option \<Rightarrow> jsnum list \<Rightarrow> jsnum" where
  "topSum maxAnswers maxScores =
     sum_list (take (takeCount maxAnswers (length maxScores)) (orderByDesc (\<lambda>v. v) maxScores))"

definition countMaxScore :: "ref list \<Rightarrow> int option \<Rightarrow> store \<Rightarrow> jsnum option" where
  "countMaxScore answerables maxAnswers st =
     map_option (topSum maxAnswers) (readMaxScores answerables st)"

definition answerables :: "question \<Rightarrow> ref list" where
  "answerables q =
     (if childQuestions q \<noteq> [] then map q_element (childQuestions q)
      else map a_element (q_answers q))"

fun countQuestionMaxScores :: "question \<Rightarrow> store \<Rightarrow> store option"
  and countQuestionsMaxScores :: "question list \<Rightarrow> store \<Rightarrow> store option" where
  "countQuestionMaxScores (Question el cqs as) st =
     (case countQuestionsMaxScores cqs st of
        None \<Rightarrow> None
      | Some st1 \<Rightarrow>
          (case readMaxAnswers el st1 of
             None \<Rightarrow> None
           | Some maxAnswers \<Rightarrow>
               (case countMaxScore (answerables (Question el cqs as)) maxAnswers st1 of
                  None \<Rightarrow> None
                | Some maxScore \<Rightarrow> Some (attr_set el ''max-score'' (StringJs maxScore) st1))))"
| "countQuestionsMaxScores [] st = Some st"
| "countQuestionsMaxScores (q # qs) st =
     (case countQuestionMaxScores q st of
        None \<Rightarrow> None
      | Some st1 \<Rightarrow> countQuestionsMaxScores qs st1)"

definition countSectionMaxScore :: "sectionT \<Rightarrow> store \<Rightarrow> store option" where
  "countSectionMaxScore s st =
     (case countQuestionsMaxScores (s_questions s) st of
        None \<Rightarrow> None
      | Some st1 \<Rightarrow>
          (case readMaxAnswers (s_element s) st1 of
             None \<Rightarrow> None
           | Some maxAnswers \<Rightarrow>
               (case countMaxScore (map q_element (s_questions s)) maxAnswers st1 of
                  None \<Rightarrow> None
                | Some maxScore \<Rightarrow>
                    Some (attr_set (s_element s) ''max-score'' (StringJs maxScore) st1))))"

definition countSectionMaxScores :: "exam \<Rightarrow> store \<Rightarrow> store option" where
  "countSectionMaxScores ex st = forEachOpt countSectionMaxScore (sections ex) st"

text \<open>
  The questions of one section that enter the exam's pool: its best
  \<^verbatim>\<open>sectionMaxAnswers ?? questions.length\<close> questions by max-score.
\<close>

definition highestOfSection :: "sectionT \<Rightarrow> store \<Rightarrow> ref list option" where
  "highestOfSection s st =
     (case readMaxAnswers (s_element s) st of
        None \<Rightarrow> None
      | Some sectionLimit \<Rightarrow>
          (case readMaxScores (map q_element (s_questions s)) st of
             None \<Rightarrow> None
           | Some scores \<Rightarrow>
               Some (map fst (take (takeCount sectionLimit (length (s_questions s)))
                       (orderByDesc snd (zip (map q_element (s_questions s)) scores))))))"

fun highestPerSection :: "sectionT list \<Rightarrow> store \<Rightarrow> ref list option" where
  "highestPerSection [] st = Some []"
| "highestPerSection (s # ss) st =
     (case highestOfSection s st of
        None \<Rightarrow> None
      | Some rs \<Rightarrow> map_option ((@) rs) (highestPerSection ss st))"

definition countExamMaxScore :: "exam \<Rightarrow> store \<Rightarrow> store option" where
  "countExamMaxScore ex st =
     (case readMaxAnswers (e_element ex) st of
        None \<Rightarrow> None
      | Some examMaxAnswers \<Rightarrow>
          (case highestPerSection (sections ex) st of
             None \<Rightarrow> None
           | Some pool \<Rightarrow>
               (case countMaxScore pool examMaxAnswers st of
                  None \<Rightarrow> None
                | Some maxScore \<Rightarrow>
                    Some (attr_set (e_element ex) ''max-score'' (StringJs maxScore) st))))"

definition countMaxScores :: "exam \<Rightarrow> store \<Rightarrow> store option" where
  "countMaxScores ex st =
     (case countSectionMaxScores ex st of
        None \<Rightarrow> None
      | Some st1 \<Rightarrow> countExamMaxScore ex st1)"

text \<open>
  In the words of the specification: the sum of the \<open>k\<close> largest of a list of scores,
  taken from the scores sorted with the library's \<^const>\<open>sort\<close>.
\<close>

definition sumOfLargest :: "nat \<Rightarrow> jsnum list \<Rightarrow> jsnum" where
  "sumOfLargest k scores = sum_list (take k (rev (sort scores)))"

text \<open>Vocabulary for stating what the propagation phase computes.\<close>

definition scoreOf :: "store \<Rightarrow> ref \<Rightarrow> jsnum" where
  "scoreOf st r = (case getNumericAttributeJs ''max-score'' r st of Some v \<Rightarrow> v | None \<Rightarrow> 0)"

definition limitOf :: "store \<Rightarrow> ref \<Rightarrow> int option" where
  "limitOf st r = (case readMaxAnswers r st of Some k \<Rightarrow> k | None \<Rightarrow> None)"

fun qScore :: "store \<Rightarrow> question \<Rightarrow> jsnum" where
  "qScore st (Question el cqs as) =
     topSum (limitOf st el)
       (if cqs \<noteq> [] then map (qScore st) cqs else map (\<lambda>a. scoreOf st (a_element a)) as)"

fun subQuestions :: "question \<Rightarrow> question list" where
  "subQuestions (Question el cqs as) = Question el cqs as # concat (map subQuestions cqs)"

fun qrefs :: "question \<Rightarrow> ref list" where
  "qrefs (Question el cqs as) = el # concat (map qrefs cqs)"

fun arefs :: "question \<Rightarrow> ref list" where
  "arefs (Question el cqs as) = map a_element as @ concat (map arefs cqs)"

definition readableQ :: "store \<Rightarrow> question \<Rightarrow> bool" where
  "readableQ st q =
     ((\<forall>r \<in> set (arefs q). getNumericAttributeJs ''max-score'' r st \<noteq> None) \<and>
      (\<forall>r \<in> set (qrefs q). readMaxAnswers r st \<noteq> None))"

text \<open>
  A section aggregates its questions the way a question aggregates its child questions, and
  the conditions under which the phase is followed here are those of one tree of elements:
  the elements of the exam, its sections and their questions are pairwise distinct and
  distinct from the answers, every answer has a readable max-score and every declared
  max-answers is readable.
\<close>

definition asQuestion :: "sectionT \<Rightarrow> question" where
  "asQuestion s = Question (s_element s) (s_questions s) []"

definition examAsQuestion :: "exam \<Rightarrow> question" where
  "examAsQuestion ex = Question (e_element ex) (map asQuestion (sections ex)) []"

definition qOk :: "question list \<Rightarrow> store \<Rightarrow> bool" where
  "qOk qs st =
     ((\<forall>q \<in> set qs. readableQ st q) \<and> distinct (concat (map qrefs qs)) \<and>
      set (concat (map qrefs qs)) \<inter> set (concat (map arefs qs)) = {})"

definition qEffect :: "question list \<Rightarrow> store \<Rightarrow> store \<Rightarrow> bool" where
  "qEffect qs st st' =
     ((\<forall>r n. n \<noteq> ''max-score'' \<or> r \<notin> set (concat (map qrefs qs)) \<longrightarrow>
          attr_get st' r n = attr_get st r n) \<and>
      (\<forall>p \<in> set (concat (map subQuestions qs)).
          getNumericAttributeJs ''max-score'' (q_element p) st' = Some (qScore st p)))"

definition examOk :: "exam \<Rightarrow> store \<Rightarrow> bool" where
  "examOk ex st = qOk [examAsQuestion ex] st"

text \<open>All questions of the exam, at every depth, and the answers of its leaf questions.\<close>

definition allQuestions :: "exam \<Rightarrow> question list" where
  "allQuestions ex = concat (map subQuestions (concat (map s_questions (sections ex))))"

fun leafAnswers :: "question \<Rightarrow> ref list" where
  "leafAnswers (Question el cqs as) =
     (if cqs \<noteq> [] then concat (map leafAnswers cqs) else map a_element as)"

definition examLeafAnswers :: "exam \<Rightarrow> ref list" where
  "examLeafAnswers ex = concat (map leafAnswers (concat (map s_questions (sections ex))))"

definition noMaxAnswers :: "exam \<Rightarrow> store \<Rightarrow> bool" where
  "noMaxAnswers ex st =
     (\<forall>r \<in> set (qrefs (examAsQuestion ex)). attr_get st r ''max-answers'' = None)"

definition storeQ :: store where
  "storeQ = emptyStore(4 := [''max-score'' \<mapsto> ''3''], 6 := [''max-score'' \<mapsto> ''5''],
                       8 := [''max-score'' \<mapsto> ''2''])"

definition storeU :: store where
  "storeU = storeQ(4 := [''max-score'' \<mapsto> ''undefined''])"

definition storeP :: store where
  "storeP = storeQ(1 := [''max-answers'' \<mapsto> ''1''])"

section \<open>Display numbers\<close>

text \<open>
  The 29 letters of \<^verbatim>\<open>alphabet\<close>, \<^verbatim>\<open>A\<close> to \<^verbatim>\<open>Z\<close> and then A with ring, A with
  diaeresis and O with diaeresis; each letter is one UTF-16 unit of the source string and
  is kept here as its own string (the last three in UTF-8). Past the end
  \<^verbatim>\<open>alphabet[i]\<close> is \<^verbatim>\<open>undefined\<close>.
\<close>

definition alphabet :: "string list" where
  "alphabet = map (\<lambda>c. [c]) ''ABCDEFGHIJKLMNOPQRSTUVWXYZ'' @
     [[char_of (195 :: nat), char_of (133 :: nat)],
      [char_of (195 :: nat), char_of (132 :: nat)],
      [char_of (195 :: nat), char_of (150 :: nat)]]"

definition alphabetAt :: "nat \<Rightarrow> string" where
  "alphabetAt i = (if i < length alphabet then alphabet ! i else ''undefined'')"

definition setDisplayNumber :: "ref \<Rightarrow> string \<Rightarrow> store \<Rightarrow> store" where
  "setDisplayNumber r v st = attr_set r ''display-number'' v st"

text \<open>\<^verbatim>\<open>xs.forEach((x, i) => ...)\<close>: the elements with their positions.\<close>

definition indexed :: "'a list \<Rightarrow> (nat \<times> 'a) list" where
  "indexed xs = zip [0..<length xs] xs"

definition addSectionNumbers :: "exam \<Rightarrow> store \<Rightarrow> store" where
  "addSectionNumbers ex st =
     fold (\<lambda>(i, s). setDisplayNumber (s_element s) (StringOf (int i + 1))) (indexed (sections ex)) st"

fun addQuestionNumber :: "question \<Rightarrow> nat \<Rightarrow> string \<Rightarrow> store \<Rightarrow> store"
  and addQuestionNumbersFrom :: "question list \<Rightarrow> nat \<Rightarrow> string \<Rightarrow> store \<Rightarrow> store" where
  "addQuestionNumber (Question el cqs as) index pfx st =
     (let displayNumber = (if pfx \<noteq> [] then pfx @ ''.'' else []) @ StringOf (int index + 1)
      in addQuestionNumbersFrom cqs 0 displayNumber (setDisplayNumber el displayNumber st))"
| "addQuestionNumbersFrom [] i pfx st = st"
| "addQuestionNumbersFrom (q # qs) i pfx st =
     addQuestionNumbersFrom qs (Suc i) pfx (addQuestionNumber q i pfx st)"

definition addQuestionNumbers :: "exam \<Rightarrow> store \<Rightarrow> store" where
  "addQuestionNumbers ex st = addQuestionNumbersFrom (topLevelQuestions ex) 0 [] st"

definition answerNumber :: "string \<Rightarrow> nat \<Rightarrow> nat \<Rightarrow> string" where
  "answerNumber questionNumber len i =
     (if len = 1 then questionNumber else questionNumber @ ''.'' @ StringOf (int i + 1))"

text \<open>
  \<^verbatim>\<open>getAttribute('display-number', question.element)\<close> has no default: without the
  attribute the pass fails, which is \<open>None\<close>.
\<close>

fun addAnswerNumber :: "question \<Rightarrow> store \<Rightarrow> store option"
  and addAnswerNumberAll :: "question list \<Rightarrow> store \<Rightarrow> store option" where
  "addAnswerNumber (Question el cqs as) st =
     (case getAttribute ''display-number'' el st of
        None \<Rightarrow> None
      | Some questionNumber \<Rightarrow>
          addAnswerNumberAll cqs
            (fold (\<lambda>(i, a). setDisplayNumber (a_element a) (answerNumber questionNumber (length as) i))
               (indexed as) st))"
| "addAnswerNumberAll [] st = Some st"
| "addAnswerNumberAll (q # qs) st =
     (case addAnswerNumber q st of None \<Rightarrow> None | Some st1 \<Rightarrow> addAnswerNumberAll qs st1)"

definition addAnswerNumbers :: "exam \<Rightarrow> store \<Rightarrow> store option" where
  "addAnswerNumbers ex st = addAnswerNumberAll (topLevelQuestions ex) st"

text \<open>\<^verbatim>\<open>element.find('./e:external-material/e:attachment')\<close>, as references.\<close>

definition externalAttachments :: "node \<Rightarrow> ref \<Rightarrow> ref list" where
  "externalAttachments tree r =
     (case lookup r tree of
        None \<Rightarrow> []
      | Some el \<Rightarrow>
          map ref_of (concat (map (findChildren [''attachment''])
                                  (findChildren [''external-material''] el))))"

definition addQuestionAttachmentNumbers :: "node \<Rightarrow> question \<Rightarrow> store \<Rightarrow> store option" where
  "addQuestionAttachmentNumbers tree q st =
     (case getAttribute ''display-number'' (q_element q) st of
        None \<Rightarrow> None
      | Some questionDisplayNumber \<Rightarrow>
          Some (fold (\<lambda>(i, r). setDisplayNumber r (questionDisplayNumber @ ''.'' @ alphabetAt i))
                  (indexed (externalAttachments tree (q_element q))) st))"

definition addAttachmentNumbers :: "node \<Rightarrow> exam \<Rightarrow> store \<Rightarrow> store option" where
  "addAttachmentNumbers tree ex st =
     forEachOpt (addQuestionAttachmentNumbers tree) (questions ex)
       (fold (\<lambda>(i, r). setDisplayNumber r (alphabetAt i))
          (indexed (externalAttachments tree (e_element ex))) st)"

text \<open>The four numbering passes, in the order of \<^verbatim>\<open>masterExamVersion\<close>.\<close>

definition addNumbers :: "node \<Rightarrow> exam \<Rightarrow> store \<Rightarrow> store option" where
  "addNumbers tree ex st =
     (case addAnswerNumbers ex (addQuestionNumbers ex (addSectionNumbers ex st)) of
        None \<Rightarrow> None
      | Some st3 \<Rightarrow> addAttachmentNumbers tree ex st3)"

text \<open>
  Each numbering pass is a sequence of writes of \<^verbatim>\<open>display-number\<close>; the lists below
  name the writes of each pass, for the proofs.
\<close>

definition writes :: "(ref \<times> string) list \<Rightarrow> store \<Rightarrow> store" where
  "writes ws st = fold (\<lambda>(r, v). setDisplayNumber r v) ws st"

definition sectionWrites :: "sectionT list \<Rightarrow> (ref \<times> string) list" where
  "sectionWrites ss = map (\<lambda>(i, s). (s_element s, StringOf (int i + 1))) (indexed ss)"

fun qWrites :: "question \<Rightarrow> nat \<Rightarrow> string \<Rightarrow> (ref \<times> string) list"
  and qWritesFrom :: "question list \<Rightarrow> nat \<Rightarrow> string \<Rightarrow> (ref \<times> string) list" where
  "qWrites (Question el cqs as) index pfx =
     (let displayNumber = (if pfx \<noteq> [] then pfx @ ''.'' else []) @ StringOf (int index + 1)
      in (el, displayNumber) # qWritesFrom cqs 0 displayNumber)"
| "qWritesFrom [] i pfx = []"
| "qWritesFrom (q # qs) i pfx = qWrites q i pfx @ qWritesFrom qs (Suc i) pfx"

fun aWrites :: "(ref \<Rightarrow> string) \<Rightarrow> question \<Rightarrow> (ref \<times> string) list" where
  "aWrites D (Question el cqs as) =
     map (\<lambda>(i, a). (a_element a, answerNumber (D el) (length as) i)) (indexed as) @
     concat (map (aWrites D) cqs)"

definition attWrites :: "node \<Rightarrow> string \<Rightarrow> ref \<Rightarrow> (ref \<times> string) list" where
  "attWrites tree pfx r = map (\<lambda>(i, a). (a, pfx @ alphabetAt i)) (indexed (externalAttachments tree r))"

definition dnText :: "string \<Rightarrow> nat \<Rightarrow> string" where
  "dnText pfx i = (if pfx \<noteq> [] then pfx @ ''.'' else []) @ StringOf (int i + 1)"

definition numbered :: "(ref \<times> string) list \<Rightarrow> question \<Rightarrow> bool" where
  "numbered ws p =
     (\<exists>d. d \<noteq> [] \<and> (q_element p, d) \<in> set ws \<and>
        (\<forall>j < length (childQuestions p).
           (q_element (childQuestions p ! j), d @ ''.'' @ StringOf (int j + 1)) \<in> set ws))"

text \<open>Every element the numbering passes write to: sections, questions, answers and the
  attachments of the exam's and the questions' external material.\<close>

definition numberedRefs :: "node \<Rightarrow> exam \<Rightarrow> ref list" where
  "numberedRefs tree ex =
     map s_element (sections ex) @
     concat (map qrefs (topLevelQuestions ex)) @
     concat (map arefs (topLevelQuestions ex)) @
     externalAttachments tree (e_element ex) @
     concat (map (\<lambda>q. externalAttachments tree (q_element q)) (questions ex))"

definition treeN :: node where
  "treeN = Element 0 NsE ''exam''
     [Element 20 NsE ''external-material''
        [Element 21 NsE ''attachment'' [], Element 22 NsE ''attachment'' []],
      Element 1 NsE ''section''
        [Element 3 NsE ''question''
           [Element 10 NsE ''external-material'' [Element 11 NsE ''attachment'' []],
            Element 4 NsE ''text-answer'' []],
         Element 5 NsE ''question''
           [Element 13 NsE ''attachments'' [Element 14 NsE ''attachment'' []],
            Element 6 NsE ''text-answer'' [], Element 9 NsE ''text-answer'' []]],
      Element 2 NsE ''section''
        [Element 7 NsE ''question''
           [Element 12 NsE ''question'' [Element 8 NsE ''text-answer'' []]]]]"

definition examN :: exam where
  "examN = \<lparr> e_element = 0,
             sections = [Section 1 [Question 3 [] [Answer 4 3], Question 5 [] [Answer 6 5, Answer 9 5]],
                         Section 2 [Question 7 [Question 12 [] [Answer 8 12]] []]],
             questions = [Question 3 [] [Answer 4 3], Question 5 [] [Answer 6 5, Answer 9 5],
                          Question 7 [Question 12 [] [Answer 8 12]] [], Question 12 [] [Answer 8 12]],
             topLevelQuestions = [Question 3 [] [Answer 4 3], Question 5 [] [Answer 6 5, Answer 9 5],
                          Question 7 [Question 12 [] [Answer 8 12]] []],
             answers = [Answer 4 3, Answer 6 5, Answer 9 5, Answer 8 12] \<rparr>"

text \<open>All references of a tree, in document order.\<close>

fun refs :: "node \<Rightarrow> ref list"
  and refsL :: "node list \<Rightarrow> ref list" where
  "refs (Element r ns nm ks) = r # refsL ks"
| "refs (Text r t) = [r]"
| "refs (Comment r t) = [r]"
| "refsL [] = []"
| "refsL (k # ks) = refs k @ refsL ks"

text \<open>
  In the words of the specification: \<open>r\<close> is an attachment of the external material of
  the element \<open>p\<close>, that is an \<^verbatim>\<open>e:attachment\<close> child of an
  \<^verbatim>\<open>e:external-material\<close> child of \<open>p\<close>.
\<close>

definition externalMaterialAttachment :: "node \<Rightarrow> ref \<Rightarrow> ref \<Rightarrow> bool" where
  "externalMaterialAttachment tree p r =
     (\<exists>el r1 ks ks'. lookup p tree = Some el \<and>
        Element r1 NsE ''external-material'' ks \<in> set (childNodes el) \<and>
        Element r NsE ''attachment'' ks' \<in> set ks)"

definition tree30 :: node where
  "tree30 = Element 0 NsE ''exam''
     [Element 20 NsE ''external-material''
        (map (\<lambda>i. Element (100 + i) NsE ''attachment'' []) [0..<30]),
      Element 1 NsE ''section''
        [Element 2 NsE ''question'' [Element 3 NsE ''text-answer'' []]]]"

section \<open>Editing the tree\<close>

text \<open>
  The passes that move or remove nodes return a new tree. \<open>updateAt r g\<close> applies \<open>g\<close> to
  the element that the reference \<open>r\<close> points to and leaves the rest of the tree as it is.
\<close>

fun setChildNodes :: "(node list \<Rightarrow> node list) \<Rightarrow> node \<Rightarrow> node" where
  "setChildNodes f (Element r ns nm ks) = Element r ns nm (f ks)"
| "setChildNodes f (Text r t) = Text r t"
| "setChildNodes f (Comment r t) = Comment r t"

fun updateAt :: "ref \<Rightarrow> (node \<Rightarrow> node) \<Rightarrow> node \<Rightarrow> node" where
  "updateAt r g (Element r' ns nm ks) =
     (if r = r' then g (Element r' ns nm ks) else Element r' ns nm (map (updateAt r g) ks))"
| "updateAt r g (Text r' t) = (if r = r' then g (Text r' t) else Text r' t)"
| "updateAt r g (Comment r' t) = (if r = r' then g (Comment r' t) else Comment r' t)"

fun forEachNode :: "('a \<Rightarrow> node \<Rightarrow> node option) \<Rightarrow> 'a list \<Rightarrow> node \<Rightarrow> node option" where
  "forEachNode f [] tree = Some tree"
| "forEachNode f (x # xs) tree =
     (case f x tree of None \<Rightarrow> None | Some tree' \<Rightarrow> forEachNode f xs tree')"

section \<open>SHA-256\<close>

text \<open>
  \<^verbatim>\<open>crypto.createHash('sha256')\<close> of Node.js, after FIPS 180-4: the message is the
  list of the bytes of the string (one byte per character, which is its UTF-8 encoding
  for the ASCII texts hashed here), the digest is written as 64 lower-case hexadecimal
  digits.
\<close>

unbundle bit_operations_syntax

type_synonym w32 = "32 word"

definition rotr :: "nat \<Rightarrow> w32 \<Rightarrow> w32" where
  "rotr n x = (drop_bit n x) OR (push_bit (32 - n) x)"

text \<open>
  The round constants (the first 32 bits of the fractional parts of the cube roots of the
  first 64 primes) and the initial hash value (of the square roots of the first 8
  primes), in decimal.
\<close>

definition K256 :: "w32 list" where
  "K256 = [
     1116352408, 1899447441, 3049323471, 3921009573, 961987163, 1508970993,
     2453635748, 2870763221, 3624381080, 310598401, 607225278, 1426881987,
     1925078388, 2162078206, 2614888103, 3248222580, 3835390401, 4022224774,
     264347078, 604807628, 770255983, 1249150122, 1555081692, 1996064986,
     2554220882, 2821834349, 2952996808, 3210313671, 3336571891, 3584528711,
     113926993, 338241895, 666307205, 773529912, 1294757372, 1396182291,
     1695183700, 1986661051, 2177026350, 2456956037, 2730485921, 2820302411,
     3259730800, 3345764771, 3516065817, 3600352804, 4094571909, 275423344,
     430227734, 506948616, 659060556, 883997877, 958139571, 1322822218,
     1537002063, 1747873779, 1955562222, 2024104815, 2227730452, 2361852424,
     2428436474, 2756734187, 3204031479, 3329325298]"

definition H0 :: "w32 list" where
  "H0 = [
     1779033703, 3144134277, 1013904242, 2773480762,
     1359893119, 2600822924, 528734635, 1541459225]"

text \<open>The message schedule: the 16 words of a block extended by \<open>n\<close> words.\<close>

fun schedule :: "nat \<Rightarrow> w32 list \<Rightarrow> w32 list" where
  "schedule 0 w = w"
| "schedule (Suc n) w =
    (let t = length w;
         w15 = w ! (t - 15); w2 = w ! (t - 2);
         s0 = rotr 7 w15 XOR rotr 18 w15 XOR drop_bit 3 w15;
         s1 = rotr 17 w2 XOR rotr 19 w2 XOR drop_bit 10 w2
     in schedule n (w @ [w ! (t - 16) + s0 + w ! (t - 7) + s1]))"

fun rounds :: "(w32 \<times> w32) list \<Rightarrow> w32 list \<Rightarrow> w32 list" where
  "rounds [] s = s"
| "rounds ((k, w) # kws) [a, b, c, d, e, f, g, h] =
    (let S1 = rotr 6 e XOR rotr 11 e XOR rotr 25 e;
         ch = (e AND f) XOR (NOT e AND g);
         t1 = h + S1 + ch + k + w;
         S0 = rotr 2 a XOR rotr 13 a XOR rotr 22 a;
         mj = (a AND b) XOR (a AND c) XOR (b AND c);
         t2 = S0 + mj
     in rounds kws [t1 + t2, a, b, c, d + t1, e, f, g])"
| "rounds _ s = s"

definition compress :: "w32 list \<Rightarrow> w32 list \<Rightarrow> w32 list" where
  "compress s blk = map2 (+) s (rounds (zip K256 (schedule 48 blk)) s)"

fun be_words :: "int list \<Rightarrow> w32 list" where
  "be_words (a # b # c # d # r) = word_of_int (((a * 256 + b) * 256 + c) * 256 + d) # be_words r"
| "be_words _ = []"

function blocks :: "w32 list \<Rightarrow> w32 list list" where
  "blocks ws = (if length ws < 16 then [] else take 16 ws # blocks (drop 16 ws))"
  by pat_completeness auto
termination
  by (relation "measure length") auto

declare blocks.simps [simp del]

definition pad :: "int list \<Rightarrow> int list" where
  "pad bs = (let l = length bs; z = (55 + 64 - l mod 64) mod 64; n = 8 * int l in
     bs @ [128] @ replicate z 0 @ map (\<lambda>i. (n div 256 ^ (7 - i)) mod 256) [0..<8])"

definition sha256_words :: "int list \<Rightarrow> w32 list" where
  "sha256_words bs = foldl compress H0 (blocks (be_words (pad bs)))"

definition hexdigit :: "nat \<Rightarrow> char" where
  "hexdigit n = ''0123456789abcdef'' ! n"

definition hex32 :: "w32 \<Rightarrow> string" where
  "hex32 w = map (\<lambda>i. hexdigit (unat (drop_bit (4 * (7 - i)) w AND 15))) [0..<8]"

definition sha256_hex :: "string \<Rightarrow> string" where
  "sha256_hex s = concat (map hex32 (sha256_words (map of_char s)))"

section \<open>Shuffling the answer options: shuffleAnswerOptions\<close>

text \<open>
  Modelled from the spec: \<^verbatim>\<open>choiceAnswerTypes\<close> and \<^verbatim>\<open>choiceAnswerOptionTypes\<close> of
  \<^verbatim>\<open>./schema\<close> are not under src/; they are the names of the choice and dropdown
  answers and of their options. \<^verbatim>\<open>byAttribute(name, value)\<close> of \<^verbatim>\<open>./utils\<close> holds of
  an element whose attribute \<open>name\<close> is present with the value \<open>value\<close>.
\<close>

definition choiceAnswerTypes :: "string list" where
  "choiceAnswerTypes = [''choice-answer'', ''dropdown-answer'']"

definition choiceAnswerOptionTypes :: "string list" where
  "choiceAnswerOptionTypes = [''choice-answer-option'', ''dropdown-answer-option'']"

definition createHash :: "string \<Rightarrow> string" where
  "createHash v = sha256_hex v"

text \<open>
  \<^verbatim>\<open>_.sortBy\<close> is a stable ascending sort; the keys are strings, compared code unit by
  code unit.
\<close>

definition sortBy :: "('a \<Rightarrow> string) \<Rightarrow> 'a list \<Rightarrow> 'a list" where
  "sortBy key xs = sort_key key xs"

text \<open>
  \<^verbatim>\<open>answer.addChild(option)\<close> on a node that already is a child: libxml2 unlinks the node
  and appends it, so that it becomes the last child.
\<close>

definition addChild :: "node \<Rightarrow> node list \<Rightarrow> node list" where
  "addChild c ks = filter (\<lambda>k. ref_of k \<noteq> ref_of c) ks @ [c]"

text \<open>The body of the \<^verbatim>\<open>forEach\<close>, on the child nodes of one answer.\<close>

definition shuffleChildNodes :: "store \<Rightarrow> string \<Rightarrow> string \<Rightarrow> node list \<Rightarrow> node list" where
  "shuffleChildNodes st multichoiceShuffleSecret questionId ks =
     (let options = filter (isE choiceAnswerOptionTypes) ks;
          answerKey = StringOf (int (length options)) @ questionId;
          sortedOptions =
            map snd (sortBy (\<lambda>(i, option).
                        createHash (answerKey @ StringOf (int i) @ multichoiceShuffleSecret))
                      (indexed options));
          ks1 = fold addChild sortedOptions ks
      in case find (\<lambda>option. getAttribute ''type'' (ref_of option) st = Some ''no-answer'') options of
           None \<Rightarrow> ks1
         | Some noAnswerOption \<Rightarrow> addChild noAnswerOption ks1)"

text \<open>The two filters: a choice or dropdown answer that is not marked with a fixed ordering.\<close>

definition shuffleTarget :: "node \<Rightarrow> store \<Rightarrow> ref \<Rightarrow> bool" where
  "shuffleTarget tree st r =
     (case lookup r tree of
        None \<Rightarrow> False
      | Some el \<Rightarrow> name_of el \<in> set choiceAnswerTypes \<and>
                   getAttribute ''ordering'' r st \<noteq> Some ''fixed'')"

text \<open>\<open>None\<close>: the answer has no \<^verbatim>\<open>question-id\<close>, where \<^verbatim>\<open>getAttribute\<close> raises.\<close>

definition shuffleAnswer :: "store \<Rightarrow> string \<Rightarrow> ref \<Rightarrow> node \<Rightarrow> node option" where
  "shuffleAnswer st multichoiceShuffleSecret r tree =
     (case getAttribute ''question-id'' r st of
        None \<Rightarrow> None
      | Some questionId \<Rightarrow>
          Some (updateAt r (setChildNodes (shuffleChildNodes st multichoiceShuffleSecret questionId)) tree))"

definition shuffleAnswerOptions :: "exam \<Rightarrow> string \<Rightarrow> node \<Rightarrow> store \<Rightarrow> node option" where
  "shuffleAnswerOptions ex multichoiceShuffleSecret tree st =
     forEachNode (shuffleAnswer st multichoiceShuffleSecret)
       (filter (shuffleTarget tree st) (map a_element (answers ex))) tree"

text \<open>
  In the words of the specification: the option at the original position \<open>i\<close> is keyed by
  the SHA-256 of option count, answer id, \<open>i\<close> and secret; the positions are put in the
  ascending order of their keys, and the position of the no-answer option, if there is
  one, is moved to the end.
\<close>

definition optionHash :: "string \<Rightarrow> string \<Rightarrow> nat \<Rightarrow> nat \<Rightarrow> string" where
  "optionHash secret answerId optionCount i =
     sha256_hex (StringOf (int optionCount) @ answerId @ StringOf (int i) @ secret)"

definition shufflePermutation :: "string \<Rightarrow> string \<Rightarrow> nat \<Rightarrow> nat option \<Rightarrow> nat list" where
  "shufflePermutation secret answerId optionCount noAnswer =
     (let order = sort_key (optionHash secret answerId optionCount) [0..<optionCount]
      in case noAnswer of None \<Rightarrow> order | Some j \<Rightarrow> filter (\<lambda>i. i \<noteq> j) order @ [j])"

text \<open>The position of the first option marked \<^verbatim>\<open>type="no-answer"\<close>.\<close>

definition firstNoAnswer :: "store \<Rightarrow> node list \<Rightarrow> nat option" where
  "firstNoAnswer st options =
     find (\<lambda>i. attr_get st (ref_of (options ! i)) ''type'' = Some ''no-answer'') [0..<length options]"

definition treeT :: node where
  "treeT = Element 0 NsE ''exam''
     [Element 1 NsE ''section''
        [Element 2 NsE ''question''
           [Element 3 NsE ''choice-answer''
              [Element 4 NsE ''choice-answer-option'' [Text 6 ''yes''],
               Element 5 NsE ''choice-answer-option'' [Text 7 ''no'']]]]]"

definition examT :: exam where
  "examT = \<lparr> e_element = 0, sections = [Section 1 [Question 2 [] [Answer 3 2]]],
             questions = [Question 2 [] [Answer 3 2]],
             topLevelQuestions = [Question 2 [] [Answer 3 2]],
             answers = [Answer 3 2] \<rparr>"

definition storeA :: store where
  "storeA = emptyStore(3 := [''question-id'' \<mapsto> ''1''], 4 := [''type'' \<mapsto> ''no-answer''])"

definition storeB :: store where
  "storeB = emptyStore(3 := [''question-id'' \<mapsto> ''1''], 5 := [''type'' \<mapsto> ''no-answer''])"

section \<open>Decimal text round trip\<close>

lemma of_char_digit_char: "d < 10 \<Longrightarrow> (of_char (digit_char d) :: nat) = 48 + d"
  by (simp add: digit_char_def)

lemma is_digit_digit_char: "d < 10 \<Longrightarrow> is_digit (digit_char d)"
  by (simp add: is_digit_def of_char_digit_char)

lemma digit_val_digit_char: "d < 10 \<Longrightarrow> digit_val (digit_char d) = d"
  by (simp add: digit_val_def of_char_digit_char)

lemma nat_digits_props:
  "nat_digits n \<noteq> [] \<and> list_all is_digit (nat_digits n)
   \<and> foldl (\<lambda>a c. 10 * a + digit_val c) 0 (nat_digits n) = n"
proof (induction n rule: nat_digits.induct)
  case (1 n)
  show ?case
  proof (cases "n < 10")
    case True
    then show ?thesis
      by (subst (1 2 3) nat_digits.simps) (simp add: is_digit_digit_char digit_val_digit_char)
  next
    case False
    with 1 show ?thesis
      by (subst (1 2 3) nat_digits.simps) (simp add: is_digit_digit_char digit_val_digit_char)
  qed
qed

lemma parse_nat_digits: "parse_digits (nat_digits n) = Some n"
  using nat_digits_props [of n] by (simp add: parse_digits_def)

lemma not_is_digit_minus: "\<not> is_digit CHR ''-''"
  by (simp add: is_digit_def)

lemma NumberOf_StringOf: "NumberOf (StringOf i) = Some i"
proof (cases "i < 0")
  case True
  then show ?thesis
    by (simp add: NumberOf_def StringOf_def parse_nat_digits)
next
  case False
  obtain c ds where cd: "nat_digits (nat i) = c # ds"
    using nat_digits_props [of "nat i"] by (cases "nat_digits (nat i)") auto
  have "is_digit c"
    using nat_digits_props [of "nat i"] cd by simp
  then have "c \<noteq> CHR ''-''"
    using not_is_digit_minus by auto
  moreover have "parse_digits (c # ds) = Some (nat i)"
    using parse_nat_digits [of "nat i"] cd by simp
  ultimately show ?thesis
    using False cd by (simp add: NumberOf_def StringOf_def)
qed

section \<open>Section limits\<close>


lemma attr_get_set [simp]:
  "attr_get (attr_set r n v st) r' n' = (if r' = r \<and> n' = n then Some v else attr_get st r' n')"
  by (simp add: attr_get_def attr_set_def)

lemma getNum_set_other [simp]:
  "n' \<noteq> n \<Longrightarrow> getNumericAttribute n' r' (attr_set r n v st) = getNumericAttribute n' r' st"
  by (simp add: getNumericAttribute_def)

lemma getNum_set_same [simp]:
  "getNumericAttribute n r (attr_set r n (StringOf i) st) = Some i"
  by (simp add: getNumericAttribute_def NumberOf_StringOf)

lemma getNum_set_other_ref [simp]:
  "r' \<noteq> r \<Longrightarrow> getNumericAttribute n' r' (attr_set r n v st) = getNumericAttribute n' r' st"
  by (simp add: getNumericAttribute_def)

text \<open>First loop.\<close>

lemma default_fold_frame:
  "r \<notin> s_element ` set ss \<or> n \<noteq> ''max-answers'' \<Longrightarrow>
   attr_get (fold (defaultSectionMaxAnswers M) ss st) r n = attr_get st r n"
  by (induction ss arbitrary: st) (auto simp: defaultSectionMaxAnswers_def)

lemma default_fold_declared:
  "attr_get st r ''max-answers'' = Some t \<Longrightarrow>
   attr_get (fold (defaultSectionMaxAnswers M) ss st) r ''max-answers'' = Some t"
proof (induction ss arbitrary: st)
  case Nil
  then show ?case by simp
next
  case (Cons a ss)
  have "attr_get (defaultSectionMaxAnswers M a st) r ''max-answers'' = Some t"
    using Cons.prems by (auto simp: defaultSectionMaxAnswers_def)
  then show ?case using Cons.IH by simp
qed

lemma default_fold_value:
  assumes "distinct (map s_element ss)" "s \<in> set ss"
    and "\<forall>t. attr_get st (s_element s) ''max-answers'' = Some t \<longrightarrow> NumberOf t \<noteq> None"
  shows "getNumericAttribute ''max-answers'' (s_element s) (fold (defaultSectionMaxAnswers M) ss st)
         = Some (sectionMaxAnswers M st s)"
  using assms
proof (induction ss arbitrary: st)
  case Nil
  then show ?case by simp
next
  case (Cons x xs)
  show ?case
  proof (cases "x = s")
    case True
    have notin: "s_element s \<notin> s_element ` set xs"
      using Cons.prems(1) True by auto
    let ?st1 = "defaultSectionMaxAnswers M s st"
    have "getNumericAttribute ''max-answers'' (s_element s) (fold (defaultSectionMaxAnswers M) xs ?st1)
          = getNumericAttribute ''max-answers'' (s_element s) ?st1"
      using default_fold_frame [of "s_element s" xs "''max-answers''" M ?st1] notin
      by (simp add: getNumericAttribute_def)
    also have "\<dots> = Some (sectionMaxAnswers M st s)"
      using Cons.prems(3)
      by (cases "attr_get st (s_element s) ''max-answers''")
         (auto simp: defaultSectionMaxAnswers_def sectionMaxAnswers_def getNumericAttribute_def
               NumberOf_StringOf)
    finally show ?thesis using True by simp
  next
    case False
    then have sin: "s \<in> set xs" using Cons.prems(2) by simp
    have ne: "s_element x \<noteq> s_element s"
      using Cons.prems(1) sin by auto
    let ?st1 = "defaultSectionMaxAnswers M x st"
    have same: "attr_get ?st1 (s_element s) ''max-answers'' = attr_get st (s_element s) ''max-answers''"
      using ne by (simp add: defaultSectionMaxAnswers_def)
    have "getNumericAttribute ''max-answers'' (s_element s) (fold (defaultSectionMaxAnswers M) xs ?st1)
          = Some (sectionMaxAnswers M ?st1 s)"
      using Cons.IH [of ?st1] Cons.prems sin same by simp
    moreover have "sectionMaxAnswers M ?st1 s = sectionMaxAnswers M st s"
      using same by (simp add: sectionMaxAnswers_def getNumericAttribute_def)
    ultimately show ?thesis by simp
  qed
qed


text \<open>Second loop.\<close>

lemma sumMaxAnswers_value:
  "\<forall>s \<in> set ss. getNumericAttribute ''max-answers'' (s_element s) st = Some (f s) \<Longrightarrow>
   sumMaxAnswers ss st = Some (sum_list (map f ss))"
  by (induction ss) auto

lemma fold_attr_set_frame:
  "r \<notin> g ` set js \<or> n' \<noteq> n \<Longrightarrow>
   attr_get (fold (\<lambda>j. attr_set (g j) n (v j)) js st) r n' = attr_get st r n'"
  by (induction js arbitrary: st) auto

lemma fold_attr_set_value:
  "distinct (map g js) \<Longrightarrow> j \<in> set js \<Longrightarrow>
   attr_get (fold (\<lambda>j. attr_set (g j) n (v j)) js st) (g j) n = Some (v j)"
proof (induction js arbitrary: st)
  case Nil
  then show ?case by simp
next
  case (Cons a js)
  show ?case
  proof (cases "a = j")
    case True
    then have "g j \<notin> g ` set js" using Cons.prems(1) by auto
    then show ?thesis
      using True fold_attr_set_frame [of "g j" g js n n v "attr_set (g j) n (v j) st"] by simp
  next
    case False
    then show ?thesis using Cons by auto
  qed
qed

lemma otherSections_subset: "set (otherSections ss i) \<subseteq> set ss"
  by (auto simp: otherSections_def dest: in_set_takeD in_set_dropD)

lemma min_loop:
  assumes "\<forall>s \<in> set ss. getNumericAttribute ''max-answers'' (s_element s) st1 = Some (f s)"
    and "\<forall>i \<in> set js. i < length ss"
  shows "forEachOpt (setSectionMinAnswers M ss) js st1 =
         Some (fold (\<lambda>i. attr_set (s_element (ss ! i)) ''min-answers''
                 (StringOf (clamp (f (ss ! i)) 0 (M - sum_list (map f (otherSections ss i)))))) js st1)"
  using assms
proof (induction js arbitrary: st1)
  case Nil
  then show ?case by simp
next
  case (Cons i js)
  have i: "i < length ss" using Cons.prems(2) by simp
  have rd: "getNumericAttribute ''max-answers'' (s_element (ss ! i)) st1 = Some (f (ss ! i))"
    using Cons.prems(1) i by simp
  have "\<forall>s \<in> set (otherSections ss i). getNumericAttribute ''max-answers'' (s_element s) st1 = Some (f s)"
    using Cons.prems(1) otherSections_subset by blast
  then have sm: "sumMaxAnswers (otherSections ss i) st1 = Some (sum_list (map f (otherSections ss i)))"
    by (rule sumMaxAnswers_value)
  let ?st2 = "attr_set (s_element (ss ! i)) ''min-answers''
                 (StringOf (clamp (f (ss ! i)) 0 (M - sum_list (map f (otherSections ss i))))) st1"
  have step: "setSectionMinAnswers M ss i st1 = Some ?st2"
    by (simp add: setSectionMinAnswers_def rd sm)
  have "\<forall>s \<in> set ss. getNumericAttribute ''max-answers'' (s_element s) ?st2 = Some (f s)"
    using Cons.prems(1) by simp
  then show ?case
    using Cons.IH [of ?st2] Cons.prems(2) step by simp
qed


text \<open>
  C6. When the exam declares a non-zero max-answers M: every section without a declared
  max-answers gets min(question count, M), a declared one is kept, and every section's
  min-answers becomes clamp(its max-answers, 0, M - the sum of the other sections'
  max-answers); nothing else changes. When the exam declares no max-answers, or declares
  0, nothing is written at all.
\<close>

theorem countSectionMaxAndMinAnswers_limits:
  assumes dist: "distinct (map s_element (sections ex))"
    and nums: "\<forall>s \<in> set (sections ex). \<forall>t.
                 attr_get st (s_element s) ''max-answers'' = Some t \<longrightarrow> NumberOf t \<noteq> None"
  shows
   "(getNumericAttribute ''max-answers'' (e_element ex) st = Some M \<and> M \<noteq> 0 \<longrightarrow>
      (\<exists>st'. countSectionMaxAndMinAnswers ex st = Some st' \<and>
         (\<forall>i < length (sections ex).
            getNumericAttribute ''max-answers'' (s_element (sections ex ! i)) st'
              = Some (sectionMaxAnswers M st (sections ex ! i)) \<and>
            attr_get st' (s_element (sections ex ! i)) ''min-answers''
              = Some (minAnswersText M st (sections ex) i)) \<and>
         (\<forall>s \<in> set (sections ex). \<forall>t.
            attr_get st (s_element s) ''max-answers'' = Some t \<longrightarrow>
            attr_get st' (s_element s) ''max-answers'' = Some t) \<and>
         (\<forall>r n. r \<notin> s_element ` set (sections ex) \<or> (n \<noteq> ''max-answers'' \<and> n \<noteq> ''min-answers'')
            \<longrightarrow> attr_get st' r n = attr_get st r n)))
    \<and> (attr_get st (e_element ex) ''max-answers'' = None
         \<or> getNumericAttribute ''max-answers'' (e_element ex) st = Some 0
        \<longrightarrow> countSectionMaxAndMinAnswers ex st = Some st)"
proof (intro conjI impI)
  assume "attr_get st (e_element ex) ''max-answers'' = None
          \<or> getNumericAttribute ''max-answers'' (e_element ex) st = Some 0"
  then show "countSectionMaxAndMinAnswers ex st = Some st"
    by (auto simp: countSectionMaxAndMinAnswers_def getNumericAttribute_def
             split: option.splits Option.bind_splits)
next
  assume M: "getNumericAttribute ''max-answers'' (e_element ex) st = Some M \<and> M \<noteq> 0"
  let ?ss = "sections ex"
  let ?f = "sectionMaxAnswers M st"
  let ?st1 = "fold (defaultSectionMaxAnswers M) ?ss st"
  let ?g = "\<lambda>i. s_element (?ss ! i)"
  let ?v = "\<lambda>i. StringOf (clamp (?f (?ss ! i)) 0 (M - sum_list (map ?f (otherSections ?ss i))))"
  let ?st2 = "fold (\<lambda>i. attr_set (?g i) ''min-answers'' (?v i)) [0..<length ?ss] ?st1"
  have rd1: "\<forall>s \<in> set ?ss. getNumericAttribute ''max-answers'' (s_element s) ?st1 = Some (?f s)"
    using default_fold_value [OF dist] nums by blast
  have loop: "forEachOpt (setSectionMinAnswers M ?ss) [0..<length ?ss] ?st1 = Some ?st2"
    using min_loop [OF rd1, of "[0..<length ?ss]" M] by simp
  obtain t where t: "attr_get st (e_element ex) ''max-answers'' = Some t" "NumberOf t = Some M"
    using M by (auto simp: getNumericAttribute_def split: Option.bind_splits)
  have res: "countSectionMaxAndMinAnswers ex st = Some ?st2"
    using M t loop by (simp add: countSectionMaxAndMinAnswers_def Let_def)
  have gmap: "map ?g [0..<length ?ss] = map s_element ?ss"
    by (rule nth_equalityI) simp_all
  have maxkeep: "attr_get ?st2 r ''max-answers'' = attr_get ?st1 r ''max-answers''" for r
    by (rule fold_attr_set_frame) simp
  have p1: "\<forall>i < length ?ss.
            getNumericAttribute ''max-answers'' (?g i) ?st2 = Some (?f (?ss ! i)) \<and>
            attr_get ?st2 (?g i) ''min-answers'' = Some (minAnswersText M st ?ss i)"
  proof (intro allI impI conjI)
    fix i assume i: "i < length ?ss"
    have "getNumericAttribute ''max-answers'' (?g i) ?st2
          = getNumericAttribute ''max-answers'' (?g i) ?st1"
      using maxkeep [of "?g i"] by (simp add: getNumericAttribute_def)
    then show "getNumericAttribute ''max-answers'' (?g i) ?st2 = Some (?f (?ss ! i))"
      using rd1 i by simp
    have "distinct (map ?g [0..<length ?ss])" using dist gmap by simp
    then have "attr_get ?st2 (?g i) ''min-answers'' = Some (?v i)"
      using fold_attr_set_value [of ?g "[0..<length ?ss]" i "''min-answers''" ?v ?st1] i by simp
    then show "attr_get ?st2 (?g i) ''min-answers'' = Some (minAnswersText M st ?ss i)"
      by (simp add: minAnswersText_def)
  qed
  have p2: "\<forall>s \<in> set ?ss. \<forall>t.
            attr_get st (s_element s) ''max-answers'' = Some t \<longrightarrow>
            attr_get ?st2 (s_element s) ''max-answers'' = Some t"
    using maxkeep default_fold_declared by simp
  have p3: "\<forall>r n. r \<notin> s_element ` set ?ss \<or> (n \<noteq> ''max-answers'' \<and> n \<noteq> ''min-answers'')
            \<longrightarrow> attr_get ?st2 r n = attr_get st r n"
  proof (intro allI impI)
    fix r n
    assume a: "r \<notin> s_element ` set ?ss \<or> (n \<noteq> ''max-answers'' \<and> n \<noteq> ''min-answers'')"
    have "r \<notin> ?g ` set [0..<length ?ss] \<or> n \<noteq> ''min-answers''"
    proof -
      have "?g ` set [0..<length ?ss] = s_element ` set ?ss"
        using gmap by (metis list.set_map)
      then show ?thesis using a by auto
    qed
    then have "attr_get ?st2 r n = attr_get ?st1 r n"
      by (rule fold_attr_set_frame)
    also have "\<dots> = attr_get st r n"
      using a by (intro default_fold_frame) auto
    finally show "attr_get ?st2 r n = attr_get st r n" .
  qed
  show "\<exists>st'. countSectionMaxAndMinAnswers ex st = Some st' \<and>
         (\<forall>i < length (sections ex).
            getNumericAttribute ''max-answers'' (s_element (sections ex ! i)) st'
              = Some (sectionMaxAnswers M st (sections ex ! i)) \<and>
            attr_get st' (s_element (sections ex ! i)) ''min-answers''
              = Some (minAnswersText M st (sections ex) i)) \<and>
         (\<forall>s \<in> set (sections ex). \<forall>t.
            attr_get st (s_element s) ''max-answers'' = Some t \<longrightarrow>
            attr_get st' (s_element s) ''max-answers'' = Some t) \<and>
         (\<forall>r n. r \<notin> s_element ` set (sections ex) \<or> (n \<noteq> ''max-answers'' \<and> n \<noteq> ''min-answers'')
            \<longrightarrow> attr_get st' r n = attr_get st r n)"
    using res p1 p2 p3 by blast
qed

theorem countSectionMaxAndMinAnswers_limits_witness:
  "distinct (map s_element (sections examW)) \<and>
   getNumericAttribute ''max-answers'' (e_element examW) storeW = Some 3 \<and>
   (\<exists>st'. countSectionMaxAndMinAnswers examW storeW = Some st' \<and>
      getNumericAttribute ''max-answers'' 1 st' = Some 2 \<and>
      getNumericAttribute ''max-answers'' 2 st' = Some 2 \<and>
      attr_get st' 1 ''min-answers'' = Some ''1'' \<and>
      attr_get st' 2 ''min-answers'' = Some ''1'')"
proof -
  have d: "distinct (map s_element (sections examW))"
    by (simp add: examW_def)
  have n: "\<forall>s \<in> set (sections examW). \<forall>t.
             attr_get storeW (s_element s) ''max-answers'' = Some t \<longrightarrow> NumberOf t \<noteq> None"
    by (simp add: examW_def storeW_def emptyStore_def attr_get_def NumberOf_def parse_digits_def
          is_digit_def)
  have m: "getNumericAttribute ''max-answers'' (e_element examW) storeW = Some 3"
    by (simp add: examW_def storeW_def emptyStore_def attr_get_def getNumericAttribute_def
          NumberOf_def parse_digits_def is_digit_def digit_val_def)
  have v0: "minAnswersText 3 storeW (sections examW) 0 = ''1''" by code_simp
  have v1: "minAnswersText 3 storeW (sections examW) 1 = ''1''" by code_simp
  have f0: "sectionMaxAnswers 3 storeW (sections examW ! 0) = 2" by code_simp
  have f1: "sectionMaxAnswers 3 storeW (sections examW ! 1) = 2" by code_simp
  have e0: "s_element (sections examW ! 0) = 1" by (simp add: examW_def)
  have e1: "s_element (sections examW ! 1) = 2" by (simp add: examW_def)
  have len: "length (sections examW) = 2" by (simp add: examW_def)
  from countSectionMaxAndMinAnswers_limits [OF d n, of 3] m
  obtain st' where r: "countSectionMaxAndMinAnswers examW storeW = Some st'"
    and a: "\<forall>i < length (sections examW).
            getNumericAttribute ''max-answers'' (s_element (sections examW ! i)) st'
              = Some (sectionMaxAnswers 3 storeW (sections examW ! i)) \<and>
            attr_get st' (s_element (sections examW ! i)) ''min-answers''
              = Some (minAnswersText 3 storeW (sections examW) i)"
    by auto
  have "getNumericAttribute ''max-answers'' 1 st' = Some 2 \<and>
        attr_get st' 1 ''min-answers'' = Some ''1''"
    using a [rule_format, of 0] len v0 f0 e0 by simp
  moreover have "getNumericAttribute ''max-answers'' 2 st' = Some 2 \<and>
        attr_get st' 2 ''min-answers'' = Some ''1''"
    using a [rule_format, of 1] len v1 f1 e1 by simp
  ultimately show ?thesis using d m r by simp
qed

theorem countSectionMaxAndMinAnswers_zero_counterexample:
  "attr_get store0 (e_element exam0) ''max-answers'' = Some ''0'' \<and>
   countSectionMaxAndMinAnswers exam0 store0 = Some store0 \<and>
   attr_get store0 (s_element (sections exam0 ! 0)) ''max-answers'' = None \<and>
   attr_get store0 (s_element (sections exam0 ! 0)) ''min-answers'' = None"
  by (simp add: countSectionMaxAndMinAnswers_def exam0_def store0_def emptyStore_def attr_get_def
        NumberOf_def parse_digits_def is_digit_def digit_val_def)


section \<open>Max-score phase\<close>


lemma collectScores_readable:
  "scoresReadable st ks \<Longrightarrow> collectScores ks st = Some (map (optionScore st) ks)"
  by (induction ks)
     (auto simp: scoresReadable_def optionScore_def getNumericAttribute_def split: option.splits)

lemma optionScore_set_other [simp]:
  "n \<noteq> ''score'' \<Longrightarrow> optionScore (attr_set r n v st) k = optionScore st k"
  by (simp add: optionScore_def)

lemma scoresReadable_set_other [simp]:
  "n \<noteq> ''score'' \<Longrightarrow> scoresReadable (attr_set r n v st) ks = scoresReadable st ks"
  by (simp add: scoresReadable_def)

lemma maxText_Max: "xs \<noteq> [] \<Longrightarrow> maxText xs = StringOf (Max (set xs))"
proof (cases xs)
  case Nil
  assume "xs \<noteq> []"
  with Nil show ?thesis by simp
next
  case (Cons a list)
  then show ?thesis by (simp only: maxText.simps Max.set_eq_fold)
qed

lemma updateMaxScoreToAnswer_step:
  assumes "\<forall>el. lookup (a_element a) tree = Some el \<longrightarrow>
             scoresReadable st (findChildren scoreCarrierNames el)"
  shows "updateMaxScoreToAnswer tree a st =
     Some (case lookup (a_element a) tree of
             None \<Rightarrow> st
           | Some el \<Rightarrow>
               if name_of el \<in> set scoredAnswerNames \<and> attr_get st (a_element a) ''max-score'' = None
               then attr_set (a_element a) ''max-score''
                      (maxText (map (optionScore st) (findChildren scoreCarrierNames el))) st
               else st)"
  using assms
  by (auto simp: updateMaxScoreToAnswer_def collectScores_readable split: option.splits)

lemma updateMaxScores_loop:
  assumes "\<forall>a \<in> set as. \<forall>el. lookup (a_element a) tree = Some el \<longrightarrow>
             scoresReadable st (findChildren scoreCarrierNames el)"
  shows "\<exists>st'. forEachOpt (updateMaxScoreToAnswer tree) as st = Some st' \<and>
     (\<forall>r n. attr_get st' r n =
        (if n = ''max-score'' \<and> attr_get st r n = None \<and> maxScoreTarget tree as r
         then Some (maxText (map (optionScore st)
                      (findChildren scoreCarrierNames (the (lookup r tree)))))
         else attr_get st r n))"
  using assms
proof (induction as arbitrary: st)
  case Nil
  then show ?case by (simp add: maxScoreTarget_def)
next
  case (Cons a as)
  let ?st1 = "case lookup (a_element a) tree of
             None \<Rightarrow> st
           | Some el \<Rightarrow>
               if name_of el \<in> set scoredAnswerNames \<and> attr_get st (a_element a) ''max-score'' = None
               then attr_set (a_element a) ''max-score''
                      (maxText (map (optionScore st) (findChildren scoreCarrierNames el))) st
               else st"
  have step: "updateMaxScoreToAnswer tree a st = Some ?st1"
    using Cons.prems by (intro updateMaxScoreToAnswer_step) simp
  have os: "optionScore ?st1 k = optionScore st k" for k
    by (simp split: option.splits)
  have sr: "scoresReadable ?st1 ks = scoresReadable st ks" for ks
    by (simp split: option.splits)
  have "\<forall>a \<in> set as. \<forall>el. lookup (a_element a) tree = Some el \<longrightarrow>
             scoresReadable ?st1 (findChildren scoreCarrierNames el)"
    using Cons.prems sr by simp
  from Cons.IH [OF this] obtain st' where
    r: "forEachOpt (updateMaxScoreToAnswer tree) as ?st1 = Some st'"
    and v: "\<forall>r n. attr_get st' r n =
        (if n = ''max-score'' \<and> attr_get ?st1 r n = None \<and> maxScoreTarget tree as r
         then Some (maxText (map (optionScore ?st1)
                      (findChildren scoreCarrierNames (the (lookup r tree)))))
         else attr_get ?st1 r n)"
    by blast
  have omap: "map (optionScore ?st1) ks = map (optionScore st) ks" for ks
    using os by simp
  have tgt: "maxScoreTarget tree (a # as) r =
        ((a_element a = r \<and> (\<exists>el. lookup r tree = Some el \<and> name_of el \<in> set scoredAnswerNames))
         \<or> maxScoreTarget tree as r)" for r
    by (auto simp: maxScoreTarget_def)
  have "\<forall>r n. attr_get st' r n =
        (if n = ''max-score'' \<and> attr_get st r n = None \<and> maxScoreTarget tree (a # as) r
         then Some (maxText (map (optionScore st)
                      (findChildren scoreCarrierNames (the (lookup r tree)))))
         else attr_get st r n)"
  proof (intro allI)
    fix r n
    show "attr_get st' r n =
        (if n = ''max-score'' \<and> attr_get st r n = None \<and> maxScoreTarget tree (a # as) r
         then Some (maxText (map (optionScore st)
                      (findChildren scoreCarrierNames (the (lookup r tree)))))
         else attr_get st r n)"
      unfolding v [rule_format, of r n] omap tgt
      by (cases "lookup (a_element a) tree") (auto split: if_splits)
  qed
  then show ?case using step r by simp
qed


text \<open>
  Where the answer has at least one option or accepted-answer the phase does what is
  expected of it: for every choice-answer, dropdown-answer and scored-text-answer of the
  exam that lacks a declared max-score, max-score becomes the largest score among them,
  an option without a score counting as 0; a declared max-score is kept, and no other
  attribute changes.
\<close>

lemma updateMaxScoresToAnswers_max:
  assumes rd: "\<forall>a \<in> set (answers ex). \<forall>el. lookup (a_element a) tree = Some el \<longrightarrow>
                 scoresReadable st (findChildren scoreCarrierNames el)"
  shows "\<exists>st'. updateMaxScoresToAnswers tree ex st = Some st' \<and>
     (\<forall>a \<in> set (answers ex). \<forall>el.
        lookup (a_element a) tree = Some el \<and> name_of el \<in> set scoredAnswerNames \<and>
        attr_get st (a_element a) ''max-score'' = None \<and>
        findChildren scoreCarrierNames el \<noteq> [] \<longrightarrow>
        attr_get st' (a_element a) ''max-score''
          = Some (StringOf (Max (optionScore st ` set (findChildren scoreCarrierNames el))))) \<and>
     (\<forall>r t. attr_get st r ''max-score'' = Some t \<longrightarrow> attr_get st' r ''max-score'' = Some t) \<and>
     (\<forall>r n. n \<noteq> ''max-score'' \<longrightarrow> attr_get st' r n = attr_get st r n)"
proof -
  from updateMaxScores_loop [OF rd] obtain st' where
    r: "forEachOpt (updateMaxScoreToAnswer tree) (answers ex) st = Some st'"
    and v: "\<And>r n. attr_get st' r n =
        (if n = ''max-score'' \<and> attr_get st r n = None \<and> maxScoreTarget tree (answers ex) r
         then Some (maxText (map (optionScore st)
                      (findChildren scoreCarrierNames (the (lookup r tree)))))
         else attr_get st r n)"
    by blast
  have p1: "\<forall>a \<in> set (answers ex). \<forall>el.
        lookup (a_element a) tree = Some el \<and> name_of el \<in> set scoredAnswerNames \<and>
        attr_get st (a_element a) ''max-score'' = None \<and>
        findChildren scoreCarrierNames el \<noteq> [] \<longrightarrow>
        attr_get st' (a_element a) ''max-score''
          = Some (StringOf (Max (optionScore st ` set (findChildren scoreCarrierNames el))))"
  proof (intro ballI allI impI)
    fix a el
    assume a: "a \<in> set (answers ex)"
      and h: "lookup (a_element a) tree = Some el \<and> name_of el \<in> set scoredAnswerNames \<and>
        attr_get st (a_element a) ''max-score'' = None \<and>
        findChildren scoreCarrierNames el \<noteq> []"
    have "maxScoreTarget tree (answers ex) (a_element a)"
      using a h by (auto simp: maxScoreTarget_def)
    then have "attr_get st' (a_element a) ''max-score''
          = Some (maxText (map (optionScore st) (findChildren scoreCarrierNames el)))"
      using v [of "a_element a" "''max-score''"] h by simp
    moreover have "maxText (map (optionScore st) (findChildren scoreCarrierNames el))
          = StringOf (Max (set (map (optionScore st) (findChildren scoreCarrierNames el))))"
      using h by (intro maxText_Max) simp
    ultimately show "attr_get st' (a_element a) ''max-score''
          = Some (StringOf (Max (optionScore st ` set (findChildren scoreCarrierNames el))))"
      by simp
  qed
  have p2: "\<forall>r t. attr_get st r ''max-score'' = Some t \<longrightarrow> attr_get st' r ''max-score'' = Some t"
    using v by simp
  have p3: "\<forall>r n. n \<noteq> ''max-score'' \<longrightarrow> attr_get st' r n = attr_get st r n"
    using v by simp
  show ?thesis
    unfolding updateMaxScoresToAnswers_def using r p1 p2 p3 by blast
qed

lemma updateMaxScoresToAnswers_max_witness:
  "(\<exists>st'. updateMaxScoresToAnswers treeS exam0 storeS = Some st' \<and>
      attr_get st' 3 ''max-score'' = Some ''2'')"
proof -
  have lk: "lookup 3 treeS = Some answerW"
    by (simp add: treeS_def answerW_def)
  have rd: "\<forall>a \<in> set (answers exam0). \<forall>el. lookup (a_element a) treeS = Some el \<longrightarrow>
                 scoresReadable storeS (findChildren scoreCarrierNames el)"
  proof -
    have "scoresReadable storeS (findChildren scoreCarrierNames answerW)" by code_simp
    then show ?thesis using lk by (simp add: exam0_def)
  qed
  have nm: "name_of answerW \<in> set scoredAnswerNames"
    by (simp add: answerW_def scoredAnswerNames_def)
  have ne: "findChildren scoreCarrierNames answerW \<noteq> []"
    by (simp add: answerW_def findChildren_def scoreCarrierNames_def)
  have un: "attr_get storeS 3 ''max-score'' = None"
    by (simp add: storeS_def emptyStore_def attr_get_def)
  have val: "StringOf (Max (optionScore storeS ` set (findChildren scoreCarrierNames answerW))) = ''2''"
    by code_simp
  from updateMaxScoresToAnswers_max [OF rd] obtain st' where
    r: "updateMaxScoresToAnswers treeS exam0 storeS = Some st'"
    and v: "\<forall>a \<in> set (answers exam0). \<forall>el.
        lookup (a_element a) treeS = Some el \<and> name_of el \<in> set scoredAnswerNames \<and>
        attr_get storeS (a_element a) ''max-score'' = None \<and>
        findChildren scoreCarrierNames el \<noteq> [] \<longrightarrow>
        attr_get st' (a_element a) ''max-score''
          = Some (StringOf (Max (optionScore storeS ` set (findChildren scoreCarrierNames el))))"
    by blast
  have "attr_get st' 3 ''max-score'' = Some ''2''"
    using v [rule_format, of "Answer 3 2" answerW] lk nm ne un val by (simp add: exam0_def)
  then show ?thesis using r by blast
qed

text \<open>
  C5. The max-score phase is to give an answer without a declared max-score the largest
  score among its options or accepted-answers, and 0 when it has none. On a choice-answer
  with no option at all the code computes \<^verbatim>\<open>String(_.max([]))\<close> and writes the text
  \<^verbatim>\<open>undefined\<close> as its max-score, where 0 is required.
\<close>

theorem updateMaxScoresToAnswers_empty_undefined:
  "lookup 3 tree0 = Some (Element 3 NsE ''choice-answer'' []) \<and>
   updateMaxScoresToAnswers tree0 exam0 emptyStore
     = Some (attr_set 3 ''max-score'' ''undefined'' emptyStore) \<and>
   attr_get (attr_set 3 ''max-score'' ''undefined'' emptyStore) 3 ''max-score'' \<noteq> Some (StringOf 0)"
proof -
  have "StringOf 0 = ''0''" by code_simp
  then show ?thesis
    by (simp add: updateMaxScoresToAnswers_def updateMaxScoreToAnswer_def tree0_def exam0_def
          emptyStore_def scoredAnswerNames_def findChildren_def attr_get_def attr_set_def)
qed


section \<open>The question tree\<close>

lemma subQuestions_refs: "p \<in> set (subQuestions q) \<Longrightarrow> q_element p \<in> set (qrefs q)"
  by (induction q) auto

lemma subQuestions_qrefs_subset:
  "p \<in> set (subQuestions q) \<Longrightarrow> set (qrefs p) \<subseteq> set (qrefs q)"
  by (induction q) auto

lemma subQuestions_arefs_subset:
  "p \<in> set (subQuestions q) \<Longrightarrow> set (arefs p) \<subseteq> set (arefs q)"
  by (induction q) auto


lemma subQuestions_self: "q \<in> set (subQuestions q)"
  by (cases q) simp

lemma subQuestions_trans:
  "p \<in> set (subQuestions q) \<Longrightarrow> c \<in> set (subQuestions p) \<Longrightarrow> c \<in> set (subQuestions q)"
  by (induction q) auto

lemma subQuestions_child:
  "p \<in> set (subQuestions q) \<Longrightarrow> c \<in> set (childQuestions p) \<Longrightarrow> c \<in> set (subQuestions q)"
proof -
  assume p: "p \<in> set (subQuestions q)" and c: "c \<in> set (childQuestions p)"
  have "c \<in> set (subQuestions p)"
    using c subQuestions_self [of c] by (cases p) auto
  then show ?thesis using p subQuestions_trans by blast
qed

lemma arefs_answers: "a \<in> set (q_answers q) \<Longrightarrow> a_element a \<in> set (arefs q)"
  by (cases q) auto


section \<open>Display numbers: the numbering passes\<close>



lemma writes_Nil [simp]: "writes [] st = st"
  by (simp add: writes_def)

lemma writes_Cons [simp]: "writes ((r, v) # ws) st = writes ws (setDisplayNumber r v st)"
  by (simp add: writes_def)

lemma writes_append [simp]: "writes (ws @ ws') st = writes ws' (writes ws st)"
  by (simp add: writes_def)

lemma writes_frame:
  "r \<notin> fst ` set ws \<or> n \<noteq> ''display-number'' \<Longrightarrow> attr_get (writes ws st) r n = attr_get st r n"
  by (induction ws arbitrary: st) (auto simp: setDisplayNumber_def)

lemma writes_value:
  "distinct (map fst ws) \<Longrightarrow> (r, v) \<in> set ws \<Longrightarrow>
   attr_get (writes ws st) r ''display-number'' = Some v"
proof (induction ws arbitrary: st)
  case Nil
  then show ?case by simp
next
  case (Cons w ws)
  obtain r' v' where w: "w = (r', v')" by (cases w)
  show ?case
  proof (cases "(r, v) = w")
    case True
    then have "r \<notin> fst ` set ws" using Cons.prems(1) by force
    then show ?thesis
      using True w writes_frame [of r ws "''display-number''" "setDisplayNumber r v st"]
      by (simp add: setDisplayNumber_def)
  next
    case False
    then show ?thesis using Cons w by auto
  qed
qed

lemma fold_indexed_writes:
  "fold (\<lambda>(i, x). setDisplayNumber (g x) (h i)) ixs st = writes (map (\<lambda>(i, x). (g x, h i)) ixs) st"
  by (induction ixs arbitrary: st) auto

lemma addSectionNumbers_writes: "addSectionNumbers ex st = writes (sectionWrites (sections ex)) st"
  unfolding addSectionNumbers_def sectionWrites_def
  by (rule fold_indexed_writes)

lemma addQuestionNumber_writes:
  "addQuestionNumber q i p st = writes (qWrites q i p) st"
  "addQuestionNumbersFrom qs i p st = writes (qWritesFrom qs i p) st"
  by (induction q i p st and qs i p st rule: addQuestionNumber_addQuestionNumbersFrom.induct)
     (simp_all add: Let_def)

lemma fst_qWrites:
  "map fst (qWrites q i p) = qrefs q"
  "map fst (qWritesFrom qs i p) = concat (map qrefs qs)"
  by (induction q i p and qs i p rule: qWrites_qWritesFrom.induct) (simp_all add: Let_def)


lemma StringOf_nonempty: "StringOf i \<noteq> []"
  using nat_digits_props by (simp add: StringOf_def)

lemma dnText_nonempty: "dnText pfx i \<noteq> []"
  by (simp add: dnText_def StringOf_nonempty)

lemma dnText_child: "d \<noteq> [] \<Longrightarrow> dnText d j = d @ ''.'' @ StringOf (int j + 1)"
  by (simp add: dnText_def)

lemma qWrites_head: "(q_element q, dnText pfx i) \<in> set (qWrites q i pfx)"
  by (cases q) (simp add: Let_def dnText_def)

lemma qWritesFrom_nth:
  "j < length qs \<Longrightarrow> (q_element (qs ! j), dnText pfx (i + j)) \<in> set (qWritesFrom qs i pfx)"
proof (induction qs arbitrary: i j)
  case Nil
  then show ?case by simp
next
  case (Cons q qs)
  show ?case
  proof (cases j)
    case 0
    then show ?thesis using qWrites_head [of q pfx i] by simp
  next
    case (Suc j')
    then have "j' < length qs" using Cons.prems by simp
    from Cons.IH [OF this, of "Suc i"] show ?thesis using Suc by simp
  qed
qed

lemma numbered_mono: "numbered ws p \<Longrightarrow> set ws \<subseteq> set ws' \<Longrightarrow> numbered ws' p"
  unfolding numbered_def by blast

lemma qWrites_numbered:
  "p \<in> set (subQuestions q) \<Longrightarrow> numbered (qWrites q i pfx) p"
  "p \<in> set (concat (map subQuestions qs)) \<Longrightarrow> numbered (qWritesFrom qs i pfx) p"
proof (induction q i pfx and qs i pfx arbitrary: p and p rule: qWrites_qWritesFrom.induct)
  case (1 el cqs as index pfx)
  let ?d = "dnText pfx index"
  have w: "qWrites (Question el cqs as) index pfx = (el, ?d) # qWritesFrom cqs 0 ?d"
    by (simp add: Let_def dnText_def)
  show ?case
  proof (cases "p = Question el cqs as")
    case True
    have "\<forall>j < length cqs. (q_element (cqs ! j), ?d @ ''.'' @ StringOf (int j + 1))
            \<in> set (qWritesFrom cqs 0 ?d)"
      using qWritesFrom_nth [of _ cqs ?d 0] dnText_child [OF dnText_nonempty] by simp
    then show ?thesis
      unfolding numbered_def w using True dnText_nonempty [of pfx index]
      by (intro exI [of _ ?d]) auto
  next
    case False
    then have "p \<in> set (concat (map subQuestions cqs))" using "1.prems" by simp
    then have "numbered (qWritesFrom cqs 0 ?d) p"
      using "1.IH" [of ?d p] by (simp add: dnText_def)
    then show ?thesis unfolding w by (rule numbered_mono) auto
  qed
next
  case (2 i pfx)
  then show ?case by simp
next
  case (3 q qs i pfx)
  show ?case
  proof (cases "p \<in> set (subQuestions q)")
    case True
    then have "numbered (qWrites q i pfx) p" by (rule "3.IH"(1))
    then show ?thesis by (rule numbered_mono) auto
  next
    case False
    then have "p \<in> set (concat (map subQuestions qs))" using "3.prems" by simp
    then have "numbered (qWritesFrom qs (Suc i) pfx) p" by (rule "3.IH"(2))
    then show ?thesis by (rule numbered_mono) auto
  qed
qed


lemma map_snd_indexed: "map snd (indexed xs) = xs"
  by (simp add: indexed_def)

lemma fst_indexed_writes: "map fst (map (\<lambda>(i, x). (g x, h i)) (indexed xs)) = map g xs"
proof -
  have "map fst (map (\<lambda>(i, x). (g x, h i)) (indexed xs)) = map g (map snd (indexed xs))"
    by (simp add: case_prod_unfold comp_def)
  then show ?thesis by (simp only: map_snd_indexed)
qed

lemma fst_aWrites: "map fst (aWrites D q) = arefs q"
proof (induction q)
  case (Question el cqs as)
  have "concat (map (map fst \<circ> aWrites D) cqs) = concat (map arefs cqs)"
    using Question.IH by (intro arg_cong [where f = concat] map_cong refl) simp
  moreover have "map fst (aWrites D (Question el cqs as)) =
      map fst (map (\<lambda>(i, a). (a_element a, answerNumber (D el) (length as) i)) (indexed as))
      @ concat (map (map fst \<circ> aWrites D) cqs)"
    by (simp add: map_concat)
  ultimately show ?case
    by (simp only: fst_indexed_writes arefs.simps)
qed

lemma answers_from_each:
  assumes elem: "\<And>q st. q \<in> set qs \<Longrightarrow>
        (\<forall>p \<in> set (subQuestions q). attr_get st (q_element p) ''display-number'' = Some (D (q_element p))) \<Longrightarrow>
        set (qrefs q) \<inter> set (arefs q) = {} \<Longrightarrow>
        addAnswerNumber q st = Some (writes (aWrites D q) st)"
    and dn: "\<forall>p \<in> set (concat (map subQuestions qs)).
               attr_get st (q_element p) ''display-number'' = Some (D (q_element p))"
    and dj: "set (concat (map qrefs qs)) \<inter> set (concat (map arefs qs)) = {}"
  shows "addAnswerNumberAll qs st = Some (writes (concat (map (aWrites D) qs)) st)"
  using assms
proof (induction qs arbitrary: st)
  case Nil
  then show ?case by simp
next
  case (Cons q qs)
  have s1: "addAnswerNumber q st = Some (writes (aWrites D q) st)"
    using Cons.prems by (intro Cons.prems(1)) auto
  let ?st1 = "writes (aWrites D q) st"
  have keep: "attr_get ?st1 (q_element p) ''display-number'' = attr_get st (q_element p) ''display-number''"
    if p: "p \<in> set (concat (map subQuestions qs))" for p
  proof -
    have "q_element p \<in> set (concat (map qrefs qs))"
      using p subQuestions_refs by fastforce
    then have "q_element p \<notin> set (arefs q)" using Cons.prems(3) by auto
    then have "q_element p \<notin> fst ` set (aWrites D q)"
      using fst_aWrites [of D q] by (metis list.set_map)
    then show ?thesis by (intro writes_frame) simp
  qed
  have "addAnswerNumberAll qs ?st1 = Some (writes (concat (map (aWrites D) qs)) ?st1)"
  proof (rule Cons.IH)
    show "\<forall>p \<in> set (concat (map subQuestions qs)).
               attr_get ?st1 (q_element p) ''display-number'' = Some (D (q_element p))"
      using keep Cons.prems(2) by simp
    show "set (concat (map qrefs qs)) \<inter> set (concat (map arefs qs)) = {}"
      using Cons.prems(3) by auto
  qed (use Cons.prems(1) in auto)
  then show ?case using s1 by simp
qed

lemma addAnswerNumber_writes:
  "(\<forall>p \<in> set (subQuestions q). attr_get st (q_element p) ''display-number'' = Some (D (q_element p))) \<Longrightarrow>
   set (qrefs q) \<inter> set (arefs q) = {} \<Longrightarrow>
   addAnswerNumber q st = Some (writes (aWrites D q) st)"
proof (induction q arbitrary: st)
  case (Question el cqs as)
  let ?ws = "map (\<lambda>(i, a). (a_element a, answerNumber (D el) (length as) i)) (indexed as)"
  let ?st1 = "writes ?ws st"
  have rd: "getAttribute ''display-number'' el st = Some (D el)"
    using Question.prems(1) by (simp add: getAttribute_def)
  have fd: "fold (\<lambda>(i, a). setDisplayNumber (a_element a) (answerNumber (D el) (length as) i))
              (indexed as) st = ?st1"
    by (rule fold_indexed_writes)
  have fw: "fst ` set ?ws \<subseteq> a_element ` set as"
    using fst_indexed_writes [of a_element "answerNumber (D el) (length as)" as]
    by (metis list.set_map subset_refl)
  have keep: "attr_get ?st1 (q_element p) ''display-number'' = attr_get st (q_element p) ''display-number''"
    if p: "p \<in> set (concat (map subQuestions cqs))" for p
  proof -
    have "q_element p \<in> set (concat (map qrefs cqs))"
      using p subQuestions_refs by fastforce
    then have "q_element p \<notin> a_element ` set as" using Question.prems(2) by auto
    then have "q_element p \<notin> fst ` set ?ws" using fw by blast
    then show ?thesis by (intro writes_frame) simp
  qed
  have "addAnswerNumberAll cqs ?st1 = Some (writes (concat (map (aWrites D) cqs)) ?st1)"
  proof (rule answers_from_each)
    show "\<forall>p \<in> set (concat (map subQuestions cqs)).
               attr_get ?st1 (q_element p) ''display-number'' = Some (D (q_element p))"
      using keep Question.prems(1) by simp
    show "set (concat (map qrefs cqs)) \<inter> set (concat (map arefs cqs)) = {}"
      using Question.prems(2) by auto
  qed (use Question.IH in blast)
  then show ?case using rd fd by simp
qed

lemma addAnswerNumberAll_writes:
  "(\<forall>p \<in> set (concat (map subQuestions qs)).
       attr_get st (q_element p) ''display-number'' = Some (D (q_element p))) \<Longrightarrow>
   set (concat (map qrefs qs)) \<inter> set (concat (map arefs qs)) = {} \<Longrightarrow>
   addAnswerNumberAll qs st = Some (writes (concat (map (aWrites D) qs)) st)"
  using answers_from_each [of qs D st] addAnswerNumber_writes by blast


lemma fst_attWrites: "map fst (attWrites tree pfx r) = externalAttachments tree r"
  using fst_indexed_writes [of "\<lambda>x. x" "\<lambda>i. pfx @ alphabetAt i" "externalAttachments tree r"]
  by (simp add: attWrites_def)

lemma fst_sectionWrites: "map fst (sectionWrites ss) = map s_element ss"
  using fst_indexed_writes [of s_element "\<lambda>i. StringOf (int i + 1)" ss]
  by (simp add: sectionWrites_def)

lemma indexed_nth: "i < length xs \<Longrightarrow> (i, xs ! i) \<in> set (indexed xs)"
  by (auto simp: indexed_def in_set_zip intro!: exI [of _ i])

lemma attWrites_nth:
  "i < length (externalAttachments tree r) \<Longrightarrow>
   (externalAttachments tree r ! i, pfx @ alphabetAt i) \<in> set (attWrites tree pfx r)"
  using indexed_nth [of i "externalAttachments tree r"]
  by (force simp: attWrites_def)

lemma sectionWrites_nth:
  "i < length ss \<Longrightarrow> (s_element (ss ! i), StringOf (int i + 1)) \<in> set (sectionWrites ss)"
  using indexed_nth [of i ss] by (force simp: sectionWrites_def)

lemma aWrites_nth:
  "i < length (q_answers p) \<Longrightarrow>
   (a_element (q_answers p ! i), answerNumber (D (q_element p)) (length (q_answers p)) i)
     \<in> set (aWrites D p)"
proof (cases p)
  case (Question el cqs as)
  assume "i < length (q_answers p)"
  then have "(i, as ! i) \<in> set (indexed as)" using Question indexed_nth by auto
  then show ?thesis using Question by force
qed

lemma aWrites_sub:
  "p \<in> set (subQuestions q) \<Longrightarrow> set (aWrites D p) \<subseteq> set (aWrites D q)"
proof (induction q)
  case (Question el cqs as)
  show ?case
  proof (cases "p = Question el cqs as")
    case True
    then show ?thesis by simp
  next
    case False
    then obtain c where c: "c \<in> set cqs" "p \<in> set (subQuestions c)"
      using Question.prems by auto
    then have "set (aWrites D p) \<subseteq> set (aWrites D c)" using Question.IH by blast
    then show ?thesis using c(1) by auto
  qed
qed

lemma addQuestionAttachmentNumbers_writes:
  "attr_get st (q_element q) ''display-number'' = Some d \<Longrightarrow>
   addQuestionAttachmentNumbers tree q st = Some (writes (attWrites tree (d @ ''.'') (q_element q)) st)"
  using fold_indexed_writes [of "\<lambda>x. x" "\<lambda>i. d @ ''.'' @ alphabetAt i"
          "indexed (externalAttachments tree (q_element q))" st]
  by (simp add: addQuestionAttachmentNumbers_def getAttribute_def attWrites_def)

lemma attachments_loop:
  assumes "\<forall>q \<in> set qs. attr_get st (q_element q) ''display-number'' = Some (D (q_element q))"
    and "q_element ` set qs \<inter> set (concat (map (\<lambda>q. externalAttachments tree (q_element q)) qs)) = {}"
  shows "forEachOpt (addQuestionAttachmentNumbers tree) qs st =
         Some (writes (concat (map (\<lambda>q. attWrites tree (D (q_element q) @ ''.'') (q_element q)) qs)) st)"
  using assms
proof (induction qs arbitrary: st)
  case Nil
  then show ?case by simp
next
  case (Cons q qs)
  let ?w = "attWrites tree (D (q_element q) @ ''.'') (q_element q)"
  let ?st1 = "writes ?w st"
  have s1: "addQuestionAttachmentNumbers tree q st = Some ?st1"
    using Cons.prems(1) by (intro addQuestionAttachmentNumbers_writes) simp
  have keep: "attr_get ?st1 (q_element p) ''display-number'' = attr_get st (q_element p) ''display-number''"
    if p: "p \<in> set qs" for p
  proof -
    have "q_element p \<notin> set (externalAttachments tree (q_element q))"
      using Cons.prems(2) p by auto
    then have "q_element p \<notin> fst ` set ?w"
      using fst_attWrites [of tree "D (q_element q) @ ''.''" "q_element q"] by (metis list.set_map)
    then show ?thesis by (intro writes_frame) simp
  qed
  have "forEachOpt (addQuestionAttachmentNumbers tree) qs ?st1 =
         Some (writes (concat (map (\<lambda>q. attWrites tree (D (q_element q) @ ''.'') (q_element q)) qs)) ?st1)"
  proof (rule Cons.IH)
    show "\<forall>q \<in> set qs. attr_get ?st1 (q_element q) ''display-number'' = Some (D (q_element q))"
      using keep Cons.prems(1) by simp
    show "q_element ` set qs \<inter> set (concat (map (\<lambda>q. externalAttachments tree (q_element q)) qs)) = {}"
      using Cons.prems(2) by auto
  qed
  then show ?case using s1 by simp
qed


lemma isE_single: "isE [nm] x = (\<exists>r ks. x = Element r NsE nm ks)"
proof (cases x)
  case (Element r ns n ks)
  then show ?thesis by (cases ns) auto
qed simp_all

lemma externalAttachments_iff:
  "r \<in> set (externalAttachments tree p) \<longleftrightarrow> externalMaterialAttachment tree p r"
proof (cases "lookup p tree")
  case None
  then show ?thesis by (simp add: externalAttachments_def externalMaterialAttachment_def)
next
  case (Some el)
  have "r \<in> set (externalAttachments tree p) \<longleftrightarrow>
        (\<exists>em \<in> set (childNodes el). isE [''external-material''] em \<and>
           (\<exists>x \<in> set (childNodes em). isE [''attachment''] x \<and> ref_of x = r))"
    using Some by (auto simp: externalAttachments_def findChildren_def)
  also have "\<dots> \<longleftrightarrow> (\<exists>r1 ks ks'. Element r1 NsE ''external-material'' ks \<in> set (childNodes el) \<and>
        Element r NsE ''attachment'' ks' \<in> set ks)"
    unfolding isE_single by force
  finally show ?thesis using Some by (simp add: externalMaterialAttachment_def)
qed

lemma refs_unfold: "refs k = ref_of k # refsL (childNodes k)"
  by (cases k) simp_all

lemma subseq_filter_children: "subseq (map ref_of (filter P ks)) (refsL ks)"
proof (induction ks)
  case Nil
  then show ?case by simp
next
  case (Cons k ks)
  have "subseq (map ref_of (filter P ks)) (refs k @ refsL ks)"
    using Cons.IH by (rule subseq_drop_many)
  moreover have "subseq (ref_of k # map ref_of (filter P ks)) (refs k @ refsL ks)"
    using Cons.IH by (simp add: refs_unfold [of k] subseq_rev_drop_many subseq_drop_many)
  ultimately show ?case by simp
qed

lemma subseq_grandchildren:
  "subseq (map ref_of (concat (map (\<lambda>k. filter P (childNodes k)) (filter Q ks)))) (refsL ks)"
proof (induction ks)
  case Nil
  then show ?case by simp
next
  case (Cons k ks)
  show ?case
  proof (cases "Q k")
    case True
    have "subseq (map ref_of (filter P (childNodes k))) (refs k)"
      using subseq_filter_children [of P "childNodes k"]
      by (simp add: refs_unfold [of k] list_emb_Cons)
    then have "subseq (map ref_of (filter P (childNodes k)) @
                 map ref_of (concat (map (\<lambda>k. filter P (childNodes k)) (filter Q ks))))
               (refs k @ refsL ks)"
      using Cons.IH by (rule list_emb_append_mono)
    then show ?thesis using True by simp
  next
    case False
    then show ?thesis using Cons.IH by (simp add: subseq_drop_many)
  qed
qed

lemma lookup_subseq:
  "lookup r t = Some el \<Longrightarrow> subseq (refs el) (refs t)"
  "lookup_list r ks = Some el \<Longrightarrow> subseq (refs el) (refsL ks)"
proof (induction r t and r ks arbitrary: el and el rule: lookup_lookup_list.induct)
  case (1 r r' ns nm ks)
  show ?case
  proof (cases "r = r'")
    case True
    then show ?thesis using "1.prems" by auto
  next
    case False
    then have "subseq (refs el) (refsL ks)" using 1 by simp
    then show ?thesis by (simp add: list_emb_Cons)
  qed
next
  case (2 r r' t)
  then show ?case by (auto split: if_splits)
next
  case (3 r r' t)
  then show ?case by (auto split: if_splits)
next
  case (4 r)
  then show ?case by simp
next
  case (5 r k ks)
  show ?case
  proof (cases "lookup r k")
    case None
    then have "subseq (refs el) (refsL ks)" using 5 by simp
    then show ?thesis by (simp add: subseq_drop_many)
  next
    case (Some n)
    then have "n = el" using "5.prems" by simp
    then have "subseq (refs el) (refs k)" using 5 Some by simp
    then show ?thesis by (simp add: subseq_rev_drop_many)
  qed
qed

lemma externalAttachments_subseq: "subseq (externalAttachments tree p) (refs tree)"
proof (cases "lookup p tree")
  case None
  then show ?thesis by (simp add: externalAttachments_def)
next
  case (Some el)
  have "subseq (externalAttachments tree p) (refsL (childNodes el))"
    using Some subseq_grandchildren [of "isE [''attachment'']" "isE [''external-material'']" "childNodes el"]
    by (simp add: externalAttachments_def findChildren_def [abs_def])
  then have "subseq (externalAttachments tree p) (refs el)"
    by (simp add: refs_unfold [of el] list_emb_Cons)
  then show ?thesis using lookup_subseq(1) [OF Some] subseq_order.order_trans by blast
qed

lemma length_alphabet: "length alphabet = 29"
  by (simp add: alphabet_def)

lemma alphabetAt_in: "i < 29 \<Longrightarrow> alphabetAt i = alphabet ! i"
  by (simp add: alphabetAt_def length_alphabet)

lemma dnText_top: "dnText [] i = StringOf (int i + 1)"
  by (simp add: dnText_def)

lemma answerNumber_unfold:
  "answerNumber d n i = (if n = 1 then d else d @ ''.'' @ StringOf (int i + 1))"
  by (simp add: answerNumber_def)

lemma numbers_as_writes:
  assumes shape: "questions ex = concat (map subQuestions (topLevelQuestions ex))"
    and dist: "distinct (numberedRefs tree ex)"
  shows "\<exists>D. addNumbers tree ex st =
           Some (writes (sectionWrites (sections ex) @ qWritesFrom (topLevelQuestions ex) 0 [] @
                         concat (map (aWrites D) (topLevelQuestions ex)) @
                         attWrites tree [] (e_element ex) @
                         concat (map (\<lambda>q. attWrites tree (D (q_element q) @ ''.'') (q_element q))
                                  (questions ex))) st)
         \<and> (\<forall>p \<in> set (questions ex). \<forall>d.
               (q_element p, d) \<in> set (qWritesFrom (topLevelQuestions ex) 0 []) \<longrightarrow> D (q_element p) = d)"
proof -
  let ?tops = "topLevelQuestions ex"
  let ?qs = "questions ex"
  let ?e = "e_element ex"
  let ?W1 = "sectionWrites (sections ex)"
  let ?W2 = "qWritesFrom ?tops 0 []"
  let ?st2 = "writes (?W1 @ ?W2) st"
  define D where "D = (\<lambda>r. case attr_get ?st2 r ''display-number'' of Some d \<Rightarrow> d | None \<Rightarrow> [])"
  let ?W3 = "concat (map (aWrites D) ?tops)"
  let ?W4a = "attWrites tree [] ?e"
  let ?W4b = "concat (map (\<lambda>q. attWrites tree (D (q_element q) @ ''.'') (q_element q)) ?qs)"
  have "distinct ((map s_element (sections ex) @ concat (map qrefs ?tops)) @
                  (concat (map arefs ?tops) @ externalAttachments tree ?e @
                   concat (map (\<lambda>q. externalAttachments tree (q_element q)) ?qs)))"
    using dist by (simp only: numberedRefs_def append_assoc)
  then have "distinct (map s_element (sections ex) @ concat (map qrefs ?tops))"
    by (simp only: distinct_append)
  then have d12: "distinct (map fst (?W1 @ ?W2))"
    by (simp only: map_append fst_sectionWrites fst_qWrites)
  have qa: "set (concat (map qrefs ?tops)) \<inter> set (concat (map arefs ?tops)) = {}"
    using dist by (auto simp: numberedRefs_def)
  have qe: "set (concat (map qrefs ?tops)) \<inter> set (externalAttachments tree ?e) = {}"
    using dist by (auto simp: numberedRefs_def)
  have qq: "set (concat (map qrefs ?tops)) \<inter>
            set (concat (map (\<lambda>q. externalAttachments tree (q_element q)) ?qs)) = {}"
    using dist by (auto simp: numberedRefs_def)
  have qin: "q_element p \<in> set (concat (map qrefs ?tops))" if "p \<in> set ?qs" for p
    using that shape subQuestions_refs by fastforce
  have Dval: "D (q_element p) = d"
    if p: "p \<in> set ?qs" and w: "(q_element p, d) \<in> set ?W2" for p d
  proof -
    have "(q_element p, d) \<in> set (?W1 @ ?W2)" using w by simp
    then have "attr_get ?st2 (q_element p) ''display-number'' = Some d"
      using writes_value [OF d12] by blast
    then show ?thesis by (simp add: D_def)
  qed
  have dn2: "attr_get ?st2 (q_element p) ''display-number'' = Some (D (q_element p))"
    if p: "p \<in> set ?qs" for p
  proof -
    have "numbered ?W2 p" using p shape qWrites_numbered(2) by simp
    then obtain d where w: "(q_element p, d) \<in> set ?W2" unfolding numbered_def by blast
    then have "(q_element p, d) \<in> set (?W1 @ ?W2)" by simp
    then have "attr_get ?st2 (q_element p) ''display-number'' = Some d"
      using writes_value [OF d12] by blast
    then show ?thesis using Dval [OF p w] by simp
  qed
  have s2: "addQuestionNumbers ex (addSectionNumbers ex st) = ?st2"
    by (simp add: addQuestionNumbers_def addSectionNumbers_writes addQuestionNumber_writes)
  have s3: "addAnswerNumbers ex ?st2 = Some (writes ?W3 ?st2)"
    unfolding addAnswerNumbers_def
    using dn2 shape qa by (intro addAnswerNumberAll_writes) auto
  let ?st3 = "writes ?W3 ?st2"
  have f3: "map fst ?W3 = concat (map arefs ?tops)"
    by (simp add: map_concat comp_def fst_aWrites)
  have dn3: "attr_get ?st3 (q_element p) ''display-number'' = Some (D (q_element p))"
    if p: "p \<in> set ?qs" for p
  proof -
    have "q_element p \<notin> set (concat (map arefs ?tops))" using qin [OF p] qa by auto
    then have "q_element p \<notin> fst ` set ?W3" using f3 by (metis list.set_map)
    then have "attr_get ?st3 (q_element p) ''display-number''
               = attr_get ?st2 (q_element p) ''display-number''"
      by (intro writes_frame) simp
    then show ?thesis using dn2 [OF p] by simp
  qed
  let ?st4 = "writes ?W4a ?st3"
  have s4a: "fold (\<lambda>(i, r). setDisplayNumber r (alphabetAt i))
               (indexed (externalAttachments tree ?e)) ?st3 = ?st4"
    using fold_indexed_writes [of "\<lambda>x. x" alphabetAt "indexed (externalAttachments tree ?e)" ?st3]
    by (simp add: attWrites_def)
  have dn4: "attr_get ?st4 (q_element p) ''display-number'' = Some (D (q_element p))"
    if p: "p \<in> set ?qs" for p
  proof -
    have "q_element p \<notin> set (externalAttachments tree ?e)" using qin [OF p] qe by auto
    then have "q_element p \<notin> fst ` set ?W4a"
      using fst_attWrites [of tree "[]" ?e] by (metis list.set_map)
    then have "attr_get ?st4 (q_element p) ''display-number''
               = attr_get ?st3 (q_element p) ''display-number''"
      by (intro writes_frame) simp
    then show ?thesis using dn3 [OF p] by simp
  qed
  have "q_element ` set ?qs \<inter> set (concat (map (\<lambda>q. externalAttachments tree (q_element q)) ?qs)) = {}"
    using qin qq by blast
  then have s4b: "forEachOpt (addQuestionAttachmentNumbers tree) ?qs ?st4 = Some (writes ?W4b ?st4)"
    using dn4 by (intro attachments_loop) auto
  have "addNumbers tree ex st = Some (writes ?W4b ?st4)"
    unfolding addNumbers_def s2 s3 option.case addAttachmentNumbers_def s4a s4b
    by (rule refl)
  then have "addNumbers tree ex st = Some (writes (?W1 @ ?W2 @ ?W3 @ ?W4a @ ?W4b) st)"
    by simp
  then show ?thesis using Dval by blast
qed


text \<open>
  C8. After the numbering passes: the sections carry 1..N in document order; the i-th
  top-level question carries i+1 and the j-th child of a question numbered d carries
  d.(j+1); the only answer of a question carries the question's number, and otherwise the
  i-th answer carries d.(i+1); of the attachments only those of external material are
  lettered: the first 29 attachments of the exam's external material carry the letters of
  the alphabet from A on, the first 29 of a question's external material carry d.letter,
  again from A on, both in document order; an element that is neither a section, a
  question, an answer nor such an attachment keeps its display number as it was, and no
  other attribute changes.
\<close>

theorem addNumbers_display_numbers:
  assumes shape: "questions ex = concat (map subQuestions (topLevelQuestions ex))"
    and dist: "distinct (numberedRefs tree ex)"
  shows "\<exists>st'. addNumbers tree ex st = Some st' \<and>
    (\<forall>i < length (sections ex).
        attr_get st' (s_element (sections ex ! i)) ''display-number'' = Some (StringOf (int i + 1))) \<and>
    (\<forall>i < length (topLevelQuestions ex).
        attr_get st' (q_element (topLevelQuestions ex ! i)) ''display-number''
          = Some (StringOf (int i + 1))) \<and>
    (\<forall>p \<in> set (questions ex). \<exists>d.
        attr_get st' (q_element p) ''display-number'' = Some d \<and>
        (\<forall>j < length (childQuestions p).
            attr_get st' (q_element (childQuestions p ! j)) ''display-number''
              = Some (d @ ''.'' @ StringOf (int j + 1))) \<and>
        (\<forall>i < length (q_answers p).
            attr_get st' (a_element (q_answers p ! i)) ''display-number''
              = Some (if length (q_answers p) = 1 then d else d @ ''.'' @ StringOf (int i + 1))) \<and>
        (\<forall>i < length (externalAttachments tree (q_element p)). i < 29 \<longrightarrow>
            attr_get st' (externalAttachments tree (q_element p) ! i) ''display-number''
              = Some (d @ ''.'' @ alphabet ! i))) \<and>
    (\<forall>i < length (externalAttachments tree (e_element ex)). i < 29 \<longrightarrow>
        attr_get st' (externalAttachments tree (e_element ex) ! i) ''display-number''
          = Some (alphabet ! i)) \<and>
    (\<forall>r n. n \<noteq> ''display-number'' \<longrightarrow> attr_get st' r n = attr_get st r n) \<and>
    (\<forall>r. r \<notin> set (map s_element (sections ex)) \<and>
         r \<notin> set (concat (map qrefs (topLevelQuestions ex))) \<and>
         r \<notin> set (concat (map arefs (topLevelQuestions ex))) \<and>
         \<not> externalMaterialAttachment tree (e_element ex) r \<and>
         (\<forall>q \<in> set (questions ex). \<not> externalMaterialAttachment tree (q_element q) r) \<longrightarrow>
         attr_get st' r ''display-number'' = attr_get st r ''display-number'') \<and>
    (\<forall>p r. (r \<in> set (externalAttachments tree p)) = externalMaterialAttachment tree p r) \<and>
    (\<forall>p. subseq (externalAttachments tree p) (refs tree))"
proof -
  let ?tops = "topLevelQuestions ex"
  let ?qs = "questions ex"
  let ?e = "e_element ex"
  let ?W1 = "sectionWrites (sections ex)"
  let ?W2 = "qWritesFrom ?tops 0 []"
  from numbers_as_writes [OF shape dist, of st] obtain D where
    res: "addNumbers tree ex st =
           Some (writes (?W1 @ ?W2 @ concat (map (aWrites D) ?tops) @ attWrites tree [] ?e @
                         concat (map (\<lambda>q. attWrites tree (D (q_element q) @ ''.'') (q_element q)) ?qs)) st)"
    and Dval: "\<And>p d. p \<in> set ?qs \<Longrightarrow> (q_element p, d) \<in> set ?W2 \<Longrightarrow> D (q_element p) = d"
    by blast
  let ?W3 = "concat (map (aWrites D) ?tops)"
  let ?W4a = "attWrites tree [] ?e"
  let ?W4b = "concat (map (\<lambda>q. attWrites tree (D (q_element q) @ ''.'') (q_element q)) ?qs)"
  let ?W = "?W1 @ ?W2 @ ?W3 @ ?W4a @ ?W4b"
  define st' where "st' = writes ?W st"
  have res': "addNumbers tree ex st = Some st'"
    by (simp only: res st'_def)
  have f3: "map fst ?W3 = concat (map arefs ?tops)"
    by (simp add: map_concat comp_def fst_aWrites)
  have f4b: "map fst ?W4b = concat (map (\<lambda>q. externalAttachments tree (q_element q)) ?qs)"
    by (simp add: map_concat comp_def fst_attWrites)
  have fW: "map fst ?W = numberedRefs tree ex"
    by (simp only: map_append fst_sectionWrites fst_qWrites f3 fst_attWrites f4b numberedRefs_def)
  have dW: "distinct (map fst ?W)" using dist fW by simp
  have val: "attr_get st' r ''display-number'' = Some v" if "(r, v) \<in> set ?W" for r v
    using writes_value [OF dW that] by (simp only: st'_def)
  have S1: "\<forall>i < length (sections ex).
        attr_get st' (s_element (sections ex ! i)) ''display-number'' = Some (StringOf (int i + 1))"
    using sectionWrites_nth by (auto intro!: val)
  have S2: "\<forall>i < length ?tops.
        attr_get st' (q_element (?tops ! i)) ''display-number'' = Some (StringOf (int i + 1))"
  proof (intro allI impI)
    fix i assume "i < length ?tops"
    then have "(q_element (?tops ! i), StringOf (int i + 1)) \<in> set ?W2"
      using qWritesFrom_nth [of i ?tops "[]" 0] by (simp add: dnText_top)
    then show "attr_get st' (q_element (?tops ! i)) ''display-number'' = Some (StringOf (int i + 1))"
      by (intro val) simp
  qed
  have S3: "\<forall>p \<in> set ?qs. \<exists>d.
        attr_get st' (q_element p) ''display-number'' = Some d \<and>
        (\<forall>j < length (childQuestions p).
            attr_get st' (q_element (childQuestions p ! j)) ''display-number''
              = Some (d @ ''.'' @ StringOf (int j + 1))) \<and>
        (\<forall>i < length (q_answers p).
            attr_get st' (a_element (q_answers p ! i)) ''display-number''
              = Some (if length (q_answers p) = 1 then d else d @ ''.'' @ StringOf (int i + 1))) \<and>
        (\<forall>i < length (externalAttachments tree (q_element p)). i < 29 \<longrightarrow>
            attr_get st' (externalAttachments tree (q_element p) ! i) ''display-number''
              = Some (d @ ''.'' @ alphabet ! i))"
  proof
    fix p assume p: "p \<in> set ?qs"
    have "numbered ?W2 p" using p shape qWrites_numbered(2) by simp
    then obtain d where w: "(q_element p, d) \<in> set ?W2"
      and ch: "\<forall>j < length (childQuestions p).
           (q_element (childQuestions p ! j), d @ ''.'' @ StringOf (int j + 1)) \<in> set ?W2"
      unfolding numbered_def by blast
    have Dp: "D (q_element p) = d" using Dval [OF p w] .
    have a1: "attr_get st' (q_element p) ''display-number'' = Some d"
      using w by (intro val) simp
    have a2: "\<forall>j < length (childQuestions p).
            attr_get st' (q_element (childQuestions p ! j)) ''display-number''
              = Some (d @ ''.'' @ StringOf (int j + 1))"
      using ch by (auto intro!: val)
    obtain q where q: "q \<in> set ?tops" "p \<in> set (subQuestions q)"
      using p shape by auto
    have sub: "set (aWrites D p) \<subseteq> set ?W3"
      using aWrites_sub [OF q(2), of D] q(1) by auto
    have a3: "\<forall>i < length (q_answers p).
            attr_get st' (a_element (q_answers p ! i)) ''display-number''
              = Some (if length (q_answers p) = 1 then d else d @ ''.'' @ StringOf (int i + 1))"
    proof (intro allI impI)
      fix i assume "i < length (q_answers p)"
      then have "(a_element (q_answers p ! i), answerNumber d (length (q_answers p)) i) \<in> set ?W3"
        using aWrites_nth [of i p D] sub Dp by auto
      then have "attr_get st' (a_element (q_answers p ! i)) ''display-number''
                 = Some (answerNumber d (length (q_answers p)) i)"
        by (intro val) simp
      then show "attr_get st' (a_element (q_answers p ! i)) ''display-number''
              = Some (if length (q_answers p) = 1 then d else d @ ''.'' @ StringOf (int i + 1))"
        by (simp only: answerNumber_unfold)
    qed
    have a4: "\<forall>i < length (externalAttachments tree (q_element p)). i < 29 \<longrightarrow>
            attr_get st' (externalAttachments tree (q_element p) ! i) ''display-number''
              = Some (d @ ''.'' @ alphabet ! i)"
    proof (intro allI impI)
      fix i assume i: "i < length (externalAttachments tree (q_element p))" "i < 29"
      have "(externalAttachments tree (q_element p) ! i, (d @ ''.'') @ alphabetAt i)
              \<in> set (attWrites tree (D (q_element p) @ ''.'') (q_element p))"
        using attWrites_nth [OF i(1), of "d @ ''.''"] by (simp only: Dp)
      then have "(externalAttachments tree (q_element p) ! i, (d @ ''.'') @ alphabetAt i) \<in> set ?W4b"
        using p by auto
      then have "attr_get st' (externalAttachments tree (q_element p) ! i) ''display-number''
              = Some ((d @ ''.'') @ alphabetAt i)"
        by (intro val) simp
      then show "attr_get st' (externalAttachments tree (q_element p) ! i) ''display-number''
              = Some (d @ ''.'' @ alphabet ! i)"
        using alphabetAt_in [OF i(2)] by simp
    qed
    show "\<exists>d.
        attr_get st' (q_element p) ''display-number'' = Some d \<and>
        (\<forall>j < length (childQuestions p).
            attr_get st' (q_element (childQuestions p ! j)) ''display-number''
              = Some (d @ ''.'' @ StringOf (int j + 1))) \<and>
        (\<forall>i < length (q_answers p).
            attr_get st' (a_element (q_answers p ! i)) ''display-number''
              = Some (if length (q_answers p) = 1 then d else d @ ''.'' @ StringOf (int i + 1))) \<and>
        (\<forall>i < length (externalAttachments tree (q_element p)). i < 29 \<longrightarrow>
            attr_get st' (externalAttachments tree (q_element p) ! i) ''display-number''
              = Some (d @ ''.'' @ alphabet ! i))"
      using a1 a2 a3 a4 by blast
  qed
  have S5: "\<forall>i < length (externalAttachments tree ?e). i < 29 \<longrightarrow>
        attr_get st' (externalAttachments tree ?e ! i) ''display-number'' = Some (alphabet ! i)"
  proof (intro allI impI)
    fix i assume i: "i < length (externalAttachments tree ?e)" "i < 29"
    have "(externalAttachments tree ?e ! i, [] @ alphabetAt i) \<in> set ?W4a"
      using attWrites_nth [OF i(1)] .
    then have "attr_get st' (externalAttachments tree ?e ! i) ''display-number''
               = Some ([] @ alphabetAt i)"
      by (intro val) simp
    then show "attr_get st' (externalAttachments tree ?e ! i) ''display-number'' = Some (alphabet ! i)"
      using alphabetAt_in [OF i(2)] by simp
  qed
  have S7: "\<forall>r n. r \<notin> set (numberedRefs tree ex) \<or> n \<noteq> ''display-number'' \<longrightarrow>
        attr_get st' r n = attr_get st r n"
  proof (intro allI impI)
    fix r n
    assume "r \<notin> set (numberedRefs tree ex) \<or> n \<noteq> ''display-number''"
    then have "r \<notin> fst ` set ?W \<or> n \<noteq> ''display-number''"
      using fW by (metis list.set_map)
    then show "attr_get st' r n = attr_get st r n"
      unfolding st'_def by (rule writes_frame)
  qed
  have S8: "\<forall>r n. n \<noteq> ''display-number'' \<longrightarrow> attr_get st' r n = attr_get st r n"
    using S7 by blast
  have S9: "\<forall>r. r \<notin> set (map s_element (sections ex)) \<and>
         r \<notin> set (concat (map qrefs ?tops)) \<and>
         r \<notin> set (concat (map arefs ?tops)) \<and>
         \<not> externalMaterialAttachment tree ?e r \<and>
         (\<forall>q \<in> set ?qs. \<not> externalMaterialAttachment tree (q_element q) r) \<longrightarrow>
         attr_get st' r ''display-number'' = attr_get st r ''display-number''"
  proof (intro allI impI)
    fix r
    assume a: "r \<notin> set (map s_element (sections ex)) \<and>
         r \<notin> set (concat (map qrefs ?tops)) \<and>
         r \<notin> set (concat (map arefs ?tops)) \<and>
         \<not> externalMaterialAttachment tree ?e r \<and>
         (\<forall>q \<in> set ?qs. \<not> externalMaterialAttachment tree (q_element q) r)"
    then have "r \<notin> set (externalAttachments tree ?e)"
      and "\<forall>q \<in> set ?qs. r \<notin> set (externalAttachments tree (q_element q))"
      by (simp_all add: externalAttachments_iff)
    then have "r \<notin> set (numberedRefs tree ex)"
      using a by (auto simp: numberedRefs_def)
    then show "attr_get st' r ''display-number'' = attr_get st r ''display-number''"
      using S7 by blast
  qed
  have S10: "\<forall>p r. (r \<in> set (externalAttachments tree p)) = externalMaterialAttachment tree p r"
    by (simp add: externalAttachments_iff)
  have S11: "\<forall>p. subseq (externalAttachments tree p) (refs tree)"
    by (simp add: externalAttachments_subseq)
  show ?thesis using res' S1 S2 S3 S5 S8 S9 S10 S11 by blast
qed


theorem addNumbers_display_numbers_witness:
  "questions examN = concat (map subQuestions (topLevelQuestions examN)) \<and>
   distinct (numberedRefs treeN examN) \<and>
   (\<exists>st'. addNumbers treeN examN emptyStore = Some st' \<and>
      attr_get st' 2 ''display-number'' = Some ''2'' \<and>
      attr_get st' 7 ''display-number'' = Some ''3'' \<and>
      attr_get st' 12 ''display-number'' = Some ''3.1'' \<and>
      attr_get st' 4 ''display-number'' = Some ''1'' \<and>
      attr_get st' 9 ''display-number'' = Some ''2.2'' \<and>
      attr_get st' 11 ''display-number'' = Some ''1.A'' \<and>
      attr_get st' 22 ''display-number'' = Some ''B'' \<and>
      attr_get st' 14 ''display-number'' = None)"
proof -
  have shape: "questions examN = concat (map subQuestions (topLevelQuestions examN))"
    by (simp add: examN_def)
  have dist: "distinct (numberedRefs treeN examN)" by code_simp
  from addNumbers_display_numbers [OF shape dist, of emptyStore] obtain st' where
    H: "addNumbers treeN examN emptyStore = Some st' \<and>
    (\<forall>i < length (sections examN).
        attr_get st' (s_element (sections examN ! i)) ''display-number'' = Some (StringOf (int i + 1))) \<and>
    (\<forall>i < length (topLevelQuestions examN).
        attr_get st' (q_element (topLevelQuestions examN ! i)) ''display-number''
          = Some (StringOf (int i + 1))) \<and>
    (\<forall>p \<in> set (questions examN). \<exists>d.
        attr_get st' (q_element p) ''display-number'' = Some d \<and>
        (\<forall>j < length (childQuestions p).
            attr_get st' (q_element (childQuestions p ! j)) ''display-number''
              = Some (d @ ''.'' @ StringOf (int j + 1))) \<and>
        (\<forall>i < length (q_answers p).
            attr_get st' (a_element (q_answers p ! i)) ''display-number''
              = Some (if length (q_answers p) = 1 then d else d @ ''.'' @ StringOf (int i + 1))) \<and>
        (\<forall>i < length (externalAttachments treeN (q_element p)). i < 29 \<longrightarrow>
            attr_get st' (externalAttachments treeN (q_element p) ! i) ''display-number''
              = Some (d @ ''.'' @ alphabet ! i))) \<and>
    (\<forall>i < length (externalAttachments treeN (e_element examN)). i < 29 \<longrightarrow>
        attr_get st' (externalAttachments treeN (e_element examN) ! i) ''display-number''
          = Some (alphabet ! i)) \<and>
    (\<forall>r n. n \<noteq> ''display-number'' \<longrightarrow> attr_get st' r n = attr_get emptyStore r n) \<and>
    (\<forall>r. r \<notin> set (map s_element (sections examN)) \<and>
         r \<notin> set (concat (map qrefs (topLevelQuestions examN))) \<and>
         r \<notin> set (concat (map arefs (topLevelQuestions examN))) \<and>
         \<not> externalMaterialAttachment treeN (e_element examN) r \<and>
         (\<forall>q \<in> set (questions examN). \<not> externalMaterialAttachment treeN (q_element q) r) \<longrightarrow>
         attr_get st' r ''display-number'' = attr_get emptyStore r ''display-number'') \<and>
    (\<forall>p r. (r \<in> set (externalAttachments treeN p)) = externalMaterialAttachment treeN p r) \<and>
    (\<forall>p. subseq (externalAttachments treeN p) (refs treeN))" ..
  note r = H [THEN conjunct1]
  note S1 = H [THEN conjunct2, THEN conjunct1]
  note S2 = H [THEN conjunct2, THEN conjunct2, THEN conjunct1]
  note S3 = H [THEN conjunct2, THEN conjunct2, THEN conjunct2, THEN conjunct1]
  note S5 = H [THEN conjunct2, THEN conjunct2, THEN conjunct2, THEN conjunct2, THEN conjunct1]
  note S9 = H [THEN conjunct2, THEN conjunct2, THEN conjunct2, THEN conjunct2, THEN conjunct2,
               THEN conjunct2, THEN conjunct1]
  note S10 = H [THEN conjunct2, THEN conjunct2, THEN conjunct2, THEN conjunct2, THEN conjunct2,
                THEN conjunct2, THEN conjunct2, THEN conjunct1]
  have n1: "StringOf 1 = ''1''" and n2: "StringOf 2 = ''2''" and n3: "StringOf 3 = ''3''"
    by code_simp+
  have len: "length (sections examN) = 2" "length (topLevelQuestions examN) = 3"
    by (simp_all add: examN_def)
  have sec1: "s_element (sections examN ! 1) = 2" by (simp add: examN_def)
  have top0: "q_element (topLevelQuestions examN ! 0) = 3"
    and top1: "q_element (topLevelQuestions examN ! 1) = 5"
    and top2: "q_element (topLevelQuestions examN ! 2) = 7"
    by (simp_all add: examN_def)
  have ee: "e_element examN = 0" by (simp add: examN_def)
  have p3: "Question 3 [] [Answer 4 3] \<in> set (questions examN)"
    and p5: "Question 5 [] [Answer 6 5, Answer 9 5] \<in> set (questions examN)"
    and p7: "Question 7 [Question 12 [] [Answer 8 12]] [] \<in> set (questions examN)"
    by (simp_all add: examN_def)
  have e3: "externalAttachments treeN 3 = [11]" by code_simp
  have e0: "externalAttachments treeN 0 = [21, 22]" by code_simp
  have al: "alphabet ! 0 = ''A''" "alphabet ! 1 = ''B''" by (simp_all add: alphabet_def)
  have v2: "attr_get st' 2 ''display-number'' = Some ''2''"
    using S1 [rule_format, of 1] len sec1 n2 by simp
  have v3: "attr_get st' 3 ''display-number'' = Some ''1''"
    using S2 [rule_format, of 0] len top0 n1 by simp
  have v5: "attr_get st' 5 ''display-number'' = Some ''2''"
    using S2 [rule_format, of 1] len top1 n2 by simp
  have v7: "attr_get st' 7 ''display-number'' = Some ''3''"
    using S2 [rule_format, of 2] len top2 n3 by simp
  have v12: "attr_get st' 12 ''display-number'' = Some ''3.1''"
  proof -
    from S3 [THEN bspec, OF p7] obtain d where
      d: "attr_get st' 7 ''display-number'' = Some d"
      and c: "\<forall>j < 1. attr_get st' (q_element ([Question 12 [] [Answer 8 12]] ! j)) ''display-number''
              = Some (d @ ''.'' @ StringOf (int j + 1))"
      by auto
    have "d = ''3''" using d v7 by simp
    then show ?thesis using c [rule_format, of 0] n1 by simp
  qed
  have v4: "attr_get st' 4 ''display-number'' = Some ''1''"
  proof -
    from S3 [THEN bspec, OF p3] obtain d where
      d: "attr_get st' 3 ''display-number'' = Some d"
      and c: "\<forall>i < 1. attr_get st' (a_element ([Answer 4 3] ! i)) ''display-number'' = Some d"
      by auto
    have "d = ''1''" using d v3 by simp
    then show ?thesis using c [rule_format, of 0] by simp
  qed
  have v11: "attr_get st' 11 ''display-number'' = Some ''1.A''"
  proof -
    from S3 [THEN bspec, OF p3] obtain d where
      d: "attr_get st' 3 ''display-number'' = Some d"
      and c: "\<forall>i < length (externalAttachments treeN 3). i < 29 \<longrightarrow>
            attr_get st' (externalAttachments treeN 3 ! i) ''display-number''
              = Some (d @ ''.'' @ alphabet ! i)"
      by auto
    have "d = ''1''" using d v3 by simp
    then show ?thesis using c [rule_format, of 0] e3 al by simp
  qed
  have v9: "attr_get st' 9 ''display-number'' = Some ''2.2''"
  proof -
    from S3 [THEN bspec, OF p5] obtain d where
      d: "attr_get st' 5 ''display-number'' = Some d"
      and c: "\<forall>i < 2. attr_get st' (a_element ([Answer 6 5, Answer 9 5] ! i)) ''display-number''
              = Some (d @ ''.'' @ StringOf (int i + 1))"
      by auto
    have "d = ''2''" using d v5 by simp
    then show ?thesis using c [rule_format, of 1] n2 by simp
  qed
  have v22: "attr_get st' 22 ''display-number'' = Some ''B''"
    using S5 [rule_format, of 1] ee e0 al by simp
  have v14: "attr_get st' 14 ''display-number'' = None"
  proof -
    have n1: "14 \<notin> set (map s_element (sections examN))"
      and n2: "14 \<notin> set (concat (map qrefs (topLevelQuestions examN)))"
      and n3: "14 \<notin> set (concat (map arefs (topLevelQuestions examN)))"
      by (simp_all add: examN_def)
    have x: "14 \<notin> set (externalAttachments treeN p)" if "p \<in> {0, 3, 5, 7, 12}" for p
      using that by (elim insertE emptyE; hypsubst; code_simp)
    have n4: "\<not> externalMaterialAttachment treeN (e_element examN) 14"
      using x [of 0] S10 ee by simp
    have "q_element q \<in> {0, 3, 5, 7, 12}" if "q \<in> set (questions examN)" for q
      using that by (auto simp: examN_def)
    then have n5: "\<forall>q \<in> set (questions examN). \<not> externalMaterialAttachment treeN (q_element q) 14"
      using x S10 by blast
    have "attr_get st' 14 ''display-number'' = attr_get emptyStore 14 ''display-number''"
      using S9 [rule_format, of 14] n1 n2 n3 n4 n5 by blast
    then show ?thesis by (simp add: emptyStore_def attr_get_def)
  qed
  show ?thesis using shape dist r v2 v7 v12 v4 v9 v11 v22 v14 by blast
qed




theorem addNumbers_thirtieth_counterexample:
  "questions exam0 = concat (map subQuestions (topLevelQuestions exam0)) \<and>
   distinct (numberedRefs tree30 exam0) \<and>
   length (externalAttachments tree30 (e_element exam0)) = 30 \<and>
   externalAttachments tree30 (e_element exam0) ! 29 = 129 \<and>
   map_option (\<lambda>st'. attr_get st' 129 ''display-number'') (addNumbers tree30 exam0 emptyStore)
     = Some (Some ''undefined'') \<and>
   ''undefined'' \<notin> set alphabet"
  by code_simp


section \<open>Propagation phase\<close>


lemma StringOf_digits: "list_all (\<lambda>c. is_digit c \<or> c = CHR ''-'') (StringOf i)"
  using nat_digits_props [of "nat i"] nat_digits_props [of "nat (- i)"]
  by (auto simp: StringOf_def list_all_iff)

lemma StringOf_not_NaN: "StringOf i \<noteq> ''NaN''" "StringOf i \<noteq> ''undefined''"
proof -
  have "\<not> (is_digit CHR ''N'' \<or> CHR ''N'' = CHR ''-'')" "\<not> (is_digit CHR ''u'' \<or> CHR ''u'' = CHR ''-'')"
    by (simp_all add: is_digit_def)
  then show "StringOf i \<noteq> ''NaN''" "StringOf i \<noteq> ''undefined''"
    using StringOf_digits [of i] by (auto simp: list_all_iff)
qed

lemma NumberJs_StringJs: "NumberJs (StringJs x) = Some x"
  by (cases x) (simp_all add: NumberJs_def StringJs_def StringOf_not_NaN NumberOf_StringOf)

lemma getNumJs_set_other [simp]:
  "n' \<noteq> n \<Longrightarrow> getNumericAttributeJs n' r' (attr_set r n v st) = getNumericAttributeJs n' r' st"
  by (simp add: getNumericAttributeJs_def)

lemma getNumJs_set_same [simp]:
  "getNumericAttributeJs n r (attr_set r n (StringJs x) st) = Some x"
  by (simp add: getNumericAttributeJs_def NumberJs_StringJs)

lemma getNumJs_set_other_ref [simp]:
  "r' \<noteq> r \<Longrightarrow> getNumericAttributeJs n' r' (attr_set r n v st) = getNumericAttributeJs n' r' st"
  by (simp add: getNumericAttributeJs_def)

lemma getNumJs_cong:
  "attr_get st2 r n = attr_get st r n \<Longrightarrow>
   getNumericAttributeJs n r st2 = getNumericAttributeJs n r st"
  by (simp add: getNumericAttributeJs_def)



lemma readMaxScores_Some:
  "\<forall>r \<in> set rs. getNumericAttributeJs ''max-score'' r st = Some (f r) \<Longrightarrow>
   readMaxScores rs st = Some (map f rs)"
  by (induction rs) auto

lemma countMaxScore_Some:
  "\<forall>r \<in> set rs. getNumericAttributeJs ''max-score'' r st = Some (f r) \<Longrightarrow>
   countMaxScore rs k st = Some (topSum k (map f rs))"
  using readMaxScores_Some [of rs st f] by (simp add: countMaxScore_def)

lemma scoreOf_Some: "getNumericAttributeJs ''max-score'' r st = Some v \<Longrightarrow> scoreOf st r = v"
  by (simp add: scoreOf_def)

lemma qScore_cong:
  "(\<forall>r \<in> set (arefs q). scoreOf st2 r = scoreOf st r) \<Longrightarrow>
   (\<forall>r \<in> set (qrefs q). limitOf st2 r = limitOf st r) \<Longrightarrow>
   qScore st2 q = qScore st q"
proof (induction q)
  case (Question el cqs as)
  have "map (qScore st2) cqs = map (qScore st) cqs"
  proof (rule map_cong [OF refl])
    fix c assume c: "c \<in> set cqs"
    show "qScore st2 c = qScore st c"
      using Question.IH [OF c] Question.prems c by auto
  qed
  moreover have "map (\<lambda>a. scoreOf st2 (a_element a)) as = map (\<lambda>a. scoreOf st (a_element a)) as"
    using Question.prems(1) by auto
  moreover have "limitOf st2 el = limitOf st el"
    using Question.prems(2) by simp
  ultimately show ?case by (simp only: qScore.simps)
qed

lemma readMaxScores_map:
  "\<forall>x \<in> set xs. getNumericAttributeJs ''max-score'' (g x) st = Some (f x) \<Longrightarrow>
   readMaxScores (map g xs) st = Some (map f xs)"
  by (induction xs) auto

lemma countMaxScore_map:
  "\<forall>x \<in> set xs. getNumericAttributeJs ''max-score'' (g x) st = Some (f x) \<Longrightarrow>
   countMaxScore (map g xs) k st = Some (topSum k (map f xs))"
  using readMaxScores_map [of xs g st f] by (simp add: countMaxScore_def)

lemma getNum_cong:
  "attr_get st2 r n = attr_get st r n \<Longrightarrow>
   getNumericAttribute n r st2 = getNumericAttribute n r st"
  by (simp add: getNumericAttribute_def)

lemma readMaxAnswers_cong:
  "attr_get st2 r ''max-answers'' = attr_get st r ''max-answers'' \<Longrightarrow>
   readMaxAnswers r st2 = readMaxAnswers r st"
  by (simp add: readMaxAnswers_def)

lemma scoreOf_cong:
  "attr_get st2 r ''max-score'' = attr_get st r ''max-score'' \<Longrightarrow> scoreOf st2 r = scoreOf st r"
  by (simp add: scoreOf_def getNumericAttributeJs_def)

lemma limitOf_cong:
  "attr_get st2 r ''max-answers'' = attr_get st r ''max-answers'' \<Longrightarrow> limitOf st2 r = limitOf st r"
  by (simp add: limitOf_def readMaxAnswers_def)

lemma qOk_Cons:
  assumes "qOk (q # qs) st"
  shows "qOk [q] st" and "qOk qs st"
    and "set (qrefs q) \<inter> set (concat (map qrefs qs)) = {}"
    and "set (qrefs q) \<inter> set (concat (map arefs qs)) = {}"
    and "set (concat (map qrefs qs)) \<inter> set (arefs q) = {}"
  using assms by (auto simp: qOk_def)

lemma qOk_frame:
  assumes ok: "qOk qs st"
    and fr: "\<forall>r n. n \<noteq> ''max-score'' \<or> r \<notin> X \<longrightarrow> attr_get st1 r n = attr_get st r n"
    and dj: "X \<inter> set (concat (map arefs qs)) = {}"
  shows "qOk qs st1"
proof -
  have "readableQ st1 q" if q: "q \<in> set qs" for q
  proof -
    have rq: "readableQ st q" using ok q by (simp add: qOk_def)
    have a: "getNumericAttributeJs ''max-score'' r st1 = getNumericAttributeJs ''max-score'' r st"
      if "r \<in> set (arefs q)" for r
    proof -
      have "r \<notin> X" using dj q that by auto
      then show ?thesis using fr by (intro getNumJs_cong) simp
    qed
    have b: "readMaxAnswers r st1 = readMaxAnswers r st" for r
      using fr by (intro readMaxAnswers_cong) simp
    show ?thesis using rq a b by (simp add: readableQ_def)
  qed
  then show ?thesis using ok by (simp add: qOk_def)
qed

lemma qScore_frame:
  assumes fr: "\<forall>r n. n \<noteq> ''max-score'' \<or> r \<notin> X \<longrightarrow> attr_get st1 r n = attr_get st r n"
    and dj: "X \<inter> set (arefs p) = {}"
  shows "qScore st1 p = qScore st p"
proof (rule qScore_cong)
  show "\<forall>r \<in> set (arefs p). scoreOf st1 r = scoreOf st r"
  proof
    fix r assume "r \<in> set (arefs p)"
    then have "r \<notin> X" using dj by auto
    then show "scoreOf st1 r = scoreOf st r" using fr by (intro scoreOf_cong) simp
  qed
  show "\<forall>r \<in> set (qrefs p). limitOf st1 r = limitOf st r"
    using fr by (auto intro!: limitOf_cong)
qed

lemma questions_from_each:
  assumes elem: "\<And>q st. q \<in> set qs \<Longrightarrow> qOk [q] st \<Longrightarrow>
                  \<exists>st'. countQuestionMaxScores q st = Some st' \<and> qEffect [q] st st'"
    and ok: "qOk qs st"
  shows "\<exists>st'. countQuestionsMaxScores qs st = Some st' \<and> qEffect qs st st'"
  using assms
proof (induction qs arbitrary: st)
  case Nil
  then show ?case by (simp add: qEffect_def)
next
  case (Cons q qs)
  note ok = qOk_Cons [OF Cons.prems(2)]
  from Cons.prems(1) [of q st] ok(1) obtain st1 where
    s1: "countQuestionMaxScores q st = Some st1" and e1: "qEffect [q] st st1"
    by auto
  have fr1: "\<forall>r n. n \<noteq> ''max-score'' \<or> r \<notin> set (qrefs q) \<longrightarrow> attr_get st1 r n = attr_get st r n"
    using e1 by (simp add: qEffect_def)
  have ok1: "qOk qs st1"
    using qOk_frame [OF ok(2) fr1 ok(4)] .
  have "\<exists>st'. countQuestionsMaxScores qs st1 = Some st' \<and> qEffect qs st1 st'"
    using Cons.IH [of st1] Cons.prems(1) ok1 by simp
  then obtain st' where
    s2: "countQuestionsMaxScores qs st1 = Some st'" and e2: "qEffect qs st1 st'"
    by blast
  have fr2: "\<forall>r n. n \<noteq> ''max-score'' \<or> r \<notin> set (concat (map qrefs qs)) \<longrightarrow>
               attr_get st' r n = attr_get st1 r n"
    using e2 by (simp add: qEffect_def)
  have frame: "\<forall>r n. n \<noteq> ''max-score'' \<or> r \<notin> set (concat (map qrefs (q # qs))) \<longrightarrow>
          attr_get st' r n = attr_get st r n"
  proof (intro allI impI)
    fix r n
    assume a: "n \<noteq> ''max-score'' \<or> r \<notin> set (concat (map qrefs (q # qs)))"
    then have "attr_get st' r n = attr_get st1 r n" using fr2 by auto
    moreover have "attr_get st1 r n = attr_get st r n" using fr1 a by auto
    ultimately show "attr_get st' r n = attr_get st r n" by simp
  qed
  have vals: "\<forall>p \<in> set (concat (map subQuestions (q # qs))).
          getNumericAttributeJs ''max-score'' (q_element p) st' = Some (qScore st p)"
  proof
    fix p assume p: "p \<in> set (concat (map subQuestions (q # qs)))"
    show "getNumericAttributeJs ''max-score'' (q_element p) st' = Some (qScore st p)"
    proof (cases "p \<in> set (subQuestions q)")
      case True
      then have "q_element p \<in> set (qrefs q)" by (rule subQuestions_refs)
      then have "q_element p \<notin> set (concat (map qrefs qs))" using ok(3) by auto
      then have "getNumericAttributeJs ''max-score'' (q_element p) st'
                 = getNumericAttributeJs ''max-score'' (q_element p) st1"
        using fr2 by (intro getNumJs_cong) simp
      then show ?thesis using e1 True by (simp add: qEffect_def)
    next
      case False
      then obtain q' where q': "q' \<in> set qs" "p \<in> set (subQuestions q')" using p by auto
      have v: "getNumericAttributeJs ''max-score'' (q_element p) st' = Some (qScore st1 p)"
        using e2 q' by (auto simp: qEffect_def)
      have "set (arefs p) \<subseteq> set (concat (map arefs qs))"
        using subQuestions_arefs_subset [OF q'(2)] q'(1) by auto
      then have "set (qrefs q) \<inter> set (arefs p) = {}" using ok(4) by auto
      then have "qScore st1 p = qScore st p"
        using qScore_frame [OF fr1] by simp
      then show ?thesis using v by simp
    qed
  qed
  show ?case using s1 s2 frame vals by (simp add: qEffect_def)
qed


lemma qOk_children:
  assumes "qOk [Question el cqs as] st"
  shows "qOk cqs st" and "el \<notin> set (concat (map qrefs cqs))"
    and "\<forall>a \<in> set as. getNumericAttributeJs ''max-score'' (a_element a) st \<noteq> None"
    and "readMaxAnswers el st \<noteq> None"
  using assms by (auto simp: qOk_def readableQ_def)

lemma question_ok:
  "qOk [q] st \<Longrightarrow> \<exists>st'. countQuestionMaxScores q st = Some st' \<and> qEffect [q] st st'"
proof (induction q arbitrary: st)
  case (Question el cqs as)
  note ok = qOk_children [OF Question.prems]
  have "\<exists>st1. countQuestionsMaxScores cqs st = Some st1 \<and> qEffect cqs st st1"
    using questions_from_each [of cqs st] Question.IH ok(1) by blast
  then obtain st1 where
    s1: "countQuestionsMaxScores cqs st = Some st1" and e1: "qEffect cqs st st1"
    by blast
  have fr1: "\<forall>r n. n \<noteq> ''max-score'' \<or> r \<notin> set (concat (map qrefs cqs)) \<longrightarrow>
               attr_get st1 r n = attr_get st r n"
    using e1 by (simp add: qEffect_def)
  have v1: "\<forall>p \<in> set (concat (map subQuestions cqs)).
          getNumericAttributeJs ''max-score'' (q_element p) st1 = Some (qScore st p)"
    using e1 by (simp add: qEffect_def)
  have "readMaxAnswers el st1 = readMaxAnswers el st"
    using fr1 by (intro readMaxAnswers_cong) simp
  then have lim: "readMaxAnswers el st1 = Some (limitOf st el)"
    using ok(4) by (auto simp: limitOf_def)
  let ?scores = "if cqs \<noteq> [] then map (qScore st) cqs else map (\<lambda>a. scoreOf st (a_element a)) as"
  have cm: "countMaxScore (answerables (Question el cqs as)) (limitOf st el) st1
            = Some (topSum (limitOf st el) ?scores)"
  proof (cases "cqs = []")
    case True
    then have st1: "st1 = st" using s1 by simp
    have "\<forall>a \<in> set as. getNumericAttributeJs ''max-score'' (a_element a) st
                       = Some (scoreOf st (a_element a))"
      using ok(3) by (auto simp: scoreOf_def)
    then show ?thesis
      using True st1 countMaxScore_map [of as a_element st "\<lambda>a. scoreOf st (a_element a)"]
      by (simp add: answerables_def)
  next
    case False
    have "\<forall>c \<in> set cqs. getNumericAttributeJs ''max-score'' (q_element c) st1 = Some (qScore st c)"
    proof
      fix c assume c: "c \<in> set cqs"
      have "c \<in> set (subQuestions c)" by (cases c) simp
      then have "c \<in> set (concat (map subQuestions cqs))" using c by auto
      then show "getNumericAttributeJs ''max-score'' (q_element c) st1 = Some (qScore st c)"
        using v1 by blast
    qed
    then show ?thesis
      using False countMaxScore_map [of cqs q_element st1 "qScore st"]
      by (simp add: answerables_def)
  qed
  let ?st' = "attr_set el ''max-score'' (StringJs (topSum (limitOf st el) ?scores)) st1"
  have res: "countQuestionMaxScores (Question el cqs as) st = Some ?st'"
    using s1 lim cm by simp
  have frame: "\<forall>r n. n \<noteq> ''max-score'' \<or> r \<notin> set (concat (map qrefs [Question el cqs as])) \<longrightarrow>
          attr_get ?st' r n = attr_get st r n"
    using fr1 by auto
  have vals: "\<forall>p \<in> set (concat (map subQuestions [Question el cqs as])).
          getNumericAttributeJs ''max-score'' (q_element p) ?st' = Some (qScore st p)"
  proof
    fix p assume p: "p \<in> set (concat (map subQuestions [Question el cqs as]))"
    show "getNumericAttributeJs ''max-score'' (q_element p) ?st' = Some (qScore st p)"
    proof (cases "p = Question el cqs as")
      case True
      then show ?thesis by (simp only: question.sel getNumJs_set_same qScore.simps)
    next
      case False
      then have pin: "p \<in> set (concat (map subQuestions cqs))" using p by simp
      then obtain c where c: "c \<in> set cqs" "p \<in> set (subQuestions c)" by auto
      have "q_element p \<in> set (concat (map qrefs cqs))"
        using subQuestions_refs [OF c(2)] c(1) by auto
      then have "q_element p \<noteq> el" using ok(2) by auto
      then have "getNumericAttributeJs ''max-score'' (q_element p) ?st'
                 = getNumericAttributeJs ''max-score'' (q_element p) st1"
        by simp
      moreover have "getNumericAttributeJs ''max-score'' (q_element p) st1 = Some (qScore st p)"
        using v1 pin by blast
      ultimately show ?thesis by (simp only:)
    qed
  qed
  show ?case using res frame vals unfolding qEffect_def by blast
qed

lemma questions_ok:
  "qOk qs st \<Longrightarrow> \<exists>st'. countQuestionsMaxScores qs st = Some st' \<and> qEffect qs st st'"
  using questions_from_each [of qs st] question_ok by blast


lemma answerables_asQuestion:
  "answerables (Question (s_element s) (s_questions s) []) = map q_element (s_questions s)"
  by (simp add: answerables_def)

lemma countSectionMaxScore_asQuestion:
  "countSectionMaxScore s st = countQuestionMaxScores (asQuestion s) st"
  unfolding countSectionMaxScore_def asQuestion_def countQuestionMaxScores.simps
    answerables_asQuestion
  by (rule refl)

lemma countSections_asQuestions:
  "forEachOpt countSectionMaxScore ss st = countQuestionsMaxScores (map asQuestion ss) st"
  by (induction ss arbitrary: st) (simp_all add: countSectionMaxScore_asQuestion split: option.splits)

lemma insertDesc_map: "map f (insertDesc f x ys) = insertDesc (\<lambda>v. v) (f x) (map f ys)"
  by (induction ys) auto

lemma orderByDesc_map: "map f (orderByDesc f xs) = orderByDesc (\<lambda>v. v) (map f xs)"
  by (induction xs) (simp_all add: orderByDesc_def insertDesc_map)

lemma set_insertDesc [simp]: "set (insertDesc f x ys) = insert x (set ys)"
  by (induction ys) auto

lemma set_orderByDesc [simp]: "set (orderByDesc f xs) = set xs"
  by (induction xs) (simp_all add: orderByDesc_def)

lemma length_insertDesc [simp]: "length (insertDesc f x ys) = Suc (length ys)"
  by (induction ys) auto

lemma length_orderByDesc [simp]: "length (orderByDesc f xs) = length xs"
  by (induction xs) (simp_all add: orderByDesc_def)

lemma sum_list_insertDesc [simp]: "sum_list (insertDesc (\<lambda>v. v) x ys) = x + sum_list ys"
  for x :: jsnum
  by (induction ys) (auto simp: ac_simps)

lemma sum_list_orderByDesc [simp]: "sum_list (orderByDesc (\<lambda>v. v) xs) = sum_list xs"
  for xs :: "jsnum list"
  by (induction xs) (simp_all add: orderByDesc_def)

lemma topSum_None [simp]: "topSum None xs = sum_list xs"
  by (simp add: topSum_def takeCount_def)

lemma readMaxScores_pairs:
  "\<forall>(r, v) \<in> set ps. getNumericAttributeJs ''max-score'' r st = Some v \<Longrightarrow>
   readMaxScores (map fst ps) st = Some (map snd ps)"
  by (induction ps) auto


lemma qScore_unfold:
  "qScore st q = topSum (limitOf st (q_element q))
     (if childQuestions q \<noteq> [] then map (qScore st) (childQuestions q)
      else map (\<lambda>a. scoreOf st (a_element a)) (q_answers q))"
  by (cases q) simp

lemma propagated_everywhere:
  assumes ok: "qOk [Question e CQ []] st"
    and eff: "qEffect CQ st st1"
    and p: "p \<in> set (concat (map subQuestions CQ))"
  shows "getNumericAttributeJs ''max-score'' (q_element p) (attr_set e ''max-score'' X st1)
         = Some (topSum (limitOf (attr_set e ''max-score'' X st1) (q_element p))
                   (map (scoreOf (attr_set e ''max-score'' X st1)) (answerables p)))"
proof -
  let ?st' = "attr_set e ''max-score'' X st1"
  have ne: "e \<notin> set (concat (map qrefs CQ))"
    using ok by (auto simp: qOk_def)
  have dj: "set (concat (map qrefs CQ)) \<inter> set (concat (map arefs CQ)) = {}"
    and ea: "e \<notin> set (concat (map arefs CQ))"
    using ok by (auto simp: qOk_def)
  have fr1: "\<forall>r n. n \<noteq> ''max-score'' \<or> r \<notin> set (concat (map qrefs CQ)) \<longrightarrow>
               attr_get st1 r n = attr_get st r n"
    using eff by (simp add: qEffect_def)
  have v1: "\<And>c. c \<in> set (concat (map subQuestions CQ)) \<Longrightarrow>
          getNumericAttributeJs ''max-score'' (q_element c) st1 = Some (qScore st c)"
    using eff unfolding qEffect_def by blast
  have inq: "\<And>c. c \<in> set (concat (map subQuestions CQ)) \<Longrightarrow> q_element c \<in> set (concat (map qrefs CQ))"
    using subQuestions_refs by fastforce
  have v': "getNumericAttributeJs ''max-score'' (q_element c) ?st' = Some (qScore st c)"
    if c: "c \<in> set (concat (map subQuestions CQ))" for c
  proof -
    have "q_element c \<noteq> e" using inq [OF c] ne by auto
    then show ?thesis using v1 [OF c] by simp
  qed
  have lim: "limitOf ?st' r = limitOf st r" for r
    using fr1 by (intro limitOf_cong) simp
  have sc: "map (scoreOf ?st') (answerables p) =
     (if childQuestions p \<noteq> [] then map (qScore st) (childQuestions p)
      else map (\<lambda>a. scoreOf st (a_element a)) (q_answers p))"
  proof (cases "childQuestions p = []")
    case True
    have "scoreOf ?st' (a_element a) = scoreOf st (a_element a)" if a: "a \<in> set (q_answers p)" for a
    proof -
      obtain q where q: "q \<in> set CQ" "p \<in> set (subQuestions q)" using p by auto
      have "a_element a \<in> set (arefs q)"
        using arefs_answers [OF a] subQuestions_arefs_subset [OF q(2)] by auto
      then have ain: "a_element a \<in> set (concat (map arefs CQ))" using q(1) by auto
      then have "a_element a \<noteq> e" "a_element a \<notin> set (concat (map qrefs CQ))"
        using ea dj by auto
      then have "attr_get ?st' (a_element a) ''max-score'' = attr_get st (a_element a) ''max-score''"
        using fr1 by simp
      then show ?thesis by (rule scoreOf_cong)
    qed
    then show ?thesis using True by (simp add: answerables_def)
  next
    case False
    have "scoreOf ?st' (q_element c) = qScore st c" if c: "c \<in> set (childQuestions p)" for c
    proof -
      obtain q where q: "q \<in> set CQ" "p \<in> set (subQuestions q)" using p by auto
      have "c \<in> set (subQuestions q)" using subQuestions_child [OF q(2) c] .
      then have "c \<in> set (concat (map subQuestions CQ))" using q(1) by auto
      then show ?thesis using v' by (simp add: scoreOf_def)
    qed
    then show ?thesis using False by (simp add: answerables_def)
  qed
  show ?thesis
    unfolding v' [OF p] lim sc by (simp only: qScore_unfold [of st p])
qed


lemma readMaxScores_append:
  "readMaxScores xs st = Some a \<Longrightarrow> readMaxScores ys st = Some b \<Longrightarrow>
   readMaxScores (xs @ ys) st = Some (a @ b)"
  by (induction xs arbitrary: a) (auto split: option.splits)

lemma highestOfSection_ok:
  assumes lim: "readMaxAnswers (s_element s) st1 = Some k"
    and vals: "\<forall>q \<in> set (s_questions s). getNumericAttributeJs ''max-score'' (q_element q) st1 = Some (f q)"
  shows "\<exists>pool. highestOfSection s st1 = Some pool \<and>
           readMaxScores pool st1 =
             Some (take (takeCount k (length (s_questions s)))
                    (orderByDesc (\<lambda>v. v) (map f (s_questions s))))"
proof -
  let ?qs = "s_questions s"
  let ?Z = "zip (map q_element ?qs) (map f ?qs)"
  let ?ps = "take (takeCount k (length ?qs)) (orderByDesc snd ?Z)"
  have rd: "readMaxScores (map q_element ?qs) st1 = Some (map f ?qs)"
    using vals by (rule readMaxScores_map)
  have h: "highestOfSection s st1 = Some (map fst ?ps)"
    by (simp add: highestOfSection_def lim rd)
  have "\<forall>(r, v) \<in> set ?ps. getNumericAttributeJs ''max-score'' r st1 = Some v"
  proof (clarify)
    fix r v assume "(r, v) \<in> set ?ps"
    then have "(r, v) \<in> set ?Z" using set_take_subset by fastforce
    then obtain q where "q \<in> set ?qs" "r = q_element q" "v = f q"
      by (auto simp: zip_map_map zip_same)
    then show "getNumericAttributeJs ''max-score'' r st1 = Some v" using vals by simp
  qed
  then have "readMaxScores (map fst ?ps) st1 = Some (map snd ?ps)"
    by (rule readMaxScores_pairs)
  moreover have "map snd ?ps = take (takeCount k (length ?qs)) (orderByDesc (\<lambda>v. v) (map f ?qs))"
  proof -
    have z: "map snd ?Z = map f ?qs" by simp
    have "map snd ?ps = take (takeCount k (length ?qs)) (map snd (orderByDesc snd ?Z))"
      by (simp only: take_map)
    also have "map snd (orderByDesc snd ?Z) = orderByDesc (\<lambda>v. v) (map snd ?Z)"
      by (rule orderByDesc_map)
    finally show ?thesis by (simp only: z)
  qed
  ultimately show ?thesis using h by simp
qed

lemma highestPerSection_ok:
  assumes "\<forall>s \<in> set ss. readMaxAnswers (s_element s) st1 = Some (k s)"
    and "\<forall>s \<in> set ss. \<forall>q \<in> set (s_questions s).
           getNumericAttributeJs ''max-score'' (q_element q) st1 = Some (f q)"
  shows "\<exists>pool. highestPerSection ss st1 = Some pool \<and>
           readMaxScores pool st1 =
             Some (concat (map (\<lambda>s. take (takeCount (k s) (length (s_questions s)))
                                  (orderByDesc (\<lambda>v. v) (map f (s_questions s)))) ss))"
  using assms
proof (induction ss)
  case Nil
  then show ?case by simp
next
  case (Cons s ss)
  from highestOfSection_ok [of s st1 "k s" f] Cons.prems obtain p1 where
    p1: "highestOfSection s st1 = Some p1"
        "readMaxScores p1 st1 = Some (take (takeCount (k s) (length (s_questions s)))
                    (orderByDesc (\<lambda>v. v) (map f (s_questions s))))"
    by auto
  from Cons.IH Cons.prems obtain p2 where
    p2: "highestPerSection ss st1 = Some p2"
        "readMaxScores p2 st1 =
             Some (concat (map (\<lambda>s. take (takeCount (k s) (length (s_questions s)))
                                  (orderByDesc (\<lambda>v. v) (map f (s_questions s)))) ss))"
    by auto
  show ?case
    using p1 p2 readMaxScores_append [OF p1(2) p2(2)] by simp
qed

lemma sum_list_concat_map:
  "sum_list (concat xss) = sum_list (map sum_list xss)" for xss :: "jsnum list list"
  by (induction xss) simp_all

lemma qScore_no_limits:
  "\<forall>r \<in> set (qrefs q). limitOf st r = None \<Longrightarrow>
   qScore st q = sum_list (map (scoreOf st) (leafAnswers q))"
proof (induction q)
  case (Question el cqs as)
  have "map (qScore st) cqs = map (\<lambda>c. sum_list (map (scoreOf st) (leafAnswers c))) cqs"
  proof (rule map_cong [OF refl])
    fix c assume c: "c \<in> set cqs"
    show "qScore st c = sum_list (map (scoreOf st) (leafAnswers c))"
      using Question.IH [OF c] Question.prems c by auto
  qed
  then have "sum_list (map (qScore st) cqs) = sum_list (map (scoreOf st) (concat (map leafAnswers cqs)))"
    by (simp only: map_concat sum_list_concat_map map_map comp_def)
  moreover have "limitOf st el = None" using Question.prems by simp
  ultimately show ?case by (simp add: comp_def)
qed


lemma leaf_sum:
  "\<forall>q \<in> set qs. f q = sum_list (map g (leafAnswers q)) \<Longrightarrow>
   sum_list (map f qs) = sum_list (map g (concat (map leafAnswers qs)))"
  for f :: "question \<Rightarrow> jsnum"
  by (induction qs) simp_all

lemma pool_sum:
  fixes f :: "question \<Rightarrow> jsnum"
  assumes "\<forall>s \<in> set ss. \<forall>q \<in> set (s_questions s). f q = sum_list (map g (leafAnswers q))"
  shows "sum_list (concat (map (\<lambda>s. take (takeCount None (length (s_questions s)))
                                  (orderByDesc (\<lambda>v. v) (map f (s_questions s)))) ss))
         = sum_list (map g (concat (map leafAnswers (concat (map s_questions ss)))))"
  using assms
proof (induction ss)
  case Nil
  then show ?case by simp
next
  case (Cons s ss)
  have "sum_list (map f (s_questions s)) = sum_list (map g (concat (map leafAnswers (s_questions s))))"
    using Cons.prems by (intro leaf_sum) simp
  then show ?case using Cons by (simp add: takeCount_def)
qed

lemma leafAnswers_arefs: "set (leafAnswers q) \<subseteq> set (arefs q)"
  by (induction q) auto


lemma countMaxScores_effect:
  assumes ok: "examOk ex st"
  shows "\<exists>st'. countMaxScores ex st = Some st' \<and>
    (\<forall>q \<in> set (allQuestions ex).
        getNumericAttributeJs ''max-score'' (q_element q) st'
          = Some (topSum (limitOf st' (q_element q)) (map (scoreOf st') (answerables q)))) \<and>
    (\<forall>s \<in> set (sections ex).
        getNumericAttributeJs ''max-score'' (s_element s) st'
          = Some (topSum (limitOf st' (s_element s))
                    (map (\<lambda>q. scoreOf st' (q_element q)) (s_questions s)))) \<and>
    (noMaxAnswers ex st \<longrightarrow>
        getNumericAttributeJs ''max-score'' (e_element ex) st'
          = Some (sum_list (map (scoreOf st') (examLeafAnswers ex)))) \<and>
    (\<forall>r n. n \<noteq> ''max-score'' \<or> r \<in> set (arefs (examAsQuestion ex)) \<longrightarrow>
        attr_get st' r n = attr_get st r n)"
proof -
  let ?e = "e_element ex"
  let ?ss = "sections ex"
  let ?SS = "map asQuestion ?ss"
  have okq: "qOk [Question ?e ?SS []] st"
    using ok by (simp add: examOk_def examAsQuestion_def)
  note okc = qOk_children [OF okq]
  from questions_ok [OF okc(1)] obtain st1 where
    s1: "countQuestionsMaxScores ?SS st = Some st1" and eff: "qEffect ?SS st st1"
    by blast
  have sec: "countSectionMaxScores ex st = Some st1"
    using s1 by (simp add: countSectionMaxScores_def countSections_asQuestions)
  have fr1: "\<And>r n. n \<noteq> ''max-score'' \<or> r \<notin> set (concat (map qrefs ?SS)) \<Longrightarrow>
               attr_get st1 r n = attr_get st r n"
    using eff unfolding qEffect_def by blast
  have v1: "\<And>c. c \<in> set (concat (map subQuestions ?SS)) \<Longrightarrow>
          getNumericAttributeJs ''max-score'' (q_element c) st1 = Some (qScore st c)"
    using eff unfolding qEffect_def by blast
  have rdl: "readMaxAnswers r st1 = readMaxAnswers r st" for r
    using fr1 by (intro readMaxAnswers_cong) simp
  have lime: "readMaxAnswers ?e st1 = Some (limitOf st ?e)"
    using okc(4) rdl by (auto simp: limitOf_def)
  have lims: "\<forall>s \<in> set ?ss. readMaxAnswers (s_element s) st1 = Some (limitOf st (s_element s))"
  proof
    fix s assume s: "s \<in> set ?ss"
    have "readableQ st (asQuestion s)" using okc(1) s by (simp add: qOk_def)
    then have "readMaxAnswers (s_element s) st \<noteq> None"
      by (simp add: readableQ_def asQuestion_def)
    then show "readMaxAnswers (s_element s) st1 = Some (limitOf st (s_element s))"
      using rdl by (auto simp: limitOf_def)
  qed
  have sub_sec: "asQuestion s \<in> set (concat (map subQuestions ?SS))" if "s \<in> set ?ss" for s
    using that subQuestions_self [of "asQuestion s"] by auto
  have sub_q: "p \<in> set (concat (map subQuestions ?SS))"
    if s: "s \<in> set ?ss" and q: "q \<in> set (s_questions s)" and p: "p \<in> set (subQuestions q)" for s q p
  proof -
    have "p \<in> set (subQuestions (asQuestion s))" using q p by (auto simp: asQuestion_def)
    then show ?thesis using s by auto
  qed
  have qv: "\<forall>s \<in> set ?ss. \<forall>q \<in> set (s_questions s).
           getNumericAttributeJs ''max-score'' (q_element q) st1 = Some (qScore st q)"
    using v1 sub_q subQuestions_self by blast
  let ?POOL = "concat (map (\<lambda>s. take (takeCount (limitOf st (s_element s)) (length (s_questions s)))
                                  (orderByDesc (\<lambda>v. v) (map (qScore st) (s_questions s)))) ?ss)"
  from highestPerSection_ok [OF lims qv] obtain pool where
    pool: "highestPerSection ?ss st1 = Some pool" "readMaxScores pool st1 = Some ?POOL"
    by blast
  let ?X = "StringJs (topSum (limitOf st ?e) ?POOL)"
  let ?st' = "attr_set ?e ''max-score'' ?X st1"
  have exm: "countExamMaxScore ex st1 = Some ?st'"
    by (simp add: countExamMaxScore_def lime pool countMaxScore_def)
  have res: "countMaxScores ex st = Some ?st'"
    by (simp add: countMaxScores_def sec exm)
  have A: "\<forall>q \<in> set (allQuestions ex).
        getNumericAttributeJs ''max-score'' (q_element q) ?st'
          = Some (topSum (limitOf ?st' (q_element q)) (map (scoreOf ?st') (answerables q)))"
  proof
    fix q assume "q \<in> set (allQuestions ex)"
    then have "q \<in> set (concat (map subQuestions ?SS))"
      using sub_q by (auto simp: allQuestions_def)
    then show "getNumericAttributeJs ''max-score'' (q_element q) ?st'
          = Some (topSum (limitOf ?st' (q_element q)) (map (scoreOf ?st') (answerables q)))"
      by (rule propagated_everywhere [OF okq eff])
  qed
  have B: "\<forall>s \<in> set ?ss.
        getNumericAttributeJs ''max-score'' (s_element s) ?st'
          = Some (topSum (limitOf ?st' (s_element s))
                    (map (\<lambda>q. scoreOf ?st' (q_element q)) (s_questions s)))"
  proof
    fix s assume s: "s \<in> set ?ss"
    have "getNumericAttributeJs ''max-score'' (q_element (asQuestion s)) ?st'
          = Some (topSum (limitOf ?st' (q_element (asQuestion s)))
                    (map (scoreOf ?st') (answerables (asQuestion s))))"
      using sub_sec [OF s] by (rule propagated_everywhere [OF okq eff])
    moreover have "answerables (asQuestion s) = map q_element (s_questions s)"
      by (simp add: asQuestion_def answerables_asQuestion)
    moreover have "q_element (asQuestion s) = s_element s"
      by (simp add: asQuestion_def)
    ultimately show "getNumericAttributeJs ''max-score'' (s_element s) ?st'
          = Some (topSum (limitOf ?st' (s_element s))
                    (map (\<lambda>q. scoreOf ?st' (q_element q)) (s_questions s)))"
      by (simp add: comp_def)
  qed
  have ne: "?e \<notin> set (concat (map qrefs ?SS))" using okc(2) .
  have dj: "set (qrefs (examAsQuestion ex)) \<inter> set (arefs (examAsQuestion ex)) = {}"
    using ok by (simp add: examOk_def qOk_def)
  have D: "\<forall>r n. n \<noteq> ''max-score'' \<or> r \<in> set (arefs (examAsQuestion ex)) \<longrightarrow>
        attr_get ?st' r n = attr_get st r n"
  proof (intro allI impI)
    fix r n
    assume a: "n \<noteq> ''max-score'' \<or> r \<in> set (arefs (examAsQuestion ex))"
    show "attr_get ?st' r n = attr_get st r n"
    proof (cases "n = ''max-score''")
      case False
      then show ?thesis using fr1 by simp
    next
      case True
      then have "r \<in> set (arefs (examAsQuestion ex))" using a by simp
      then have "r \<notin> set (qrefs (examAsQuestion ex))" using dj by auto
      then have "r \<noteq> ?e" "r \<notin> set (concat (map qrefs ?SS))"
        by (simp_all add: examAsQuestion_def)
      then show ?thesis using fr1 by simp
    qed
  qed
  have C: "noMaxAnswers ex st \<longrightarrow>
        getNumericAttributeJs ''max-score'' ?e ?st'
          = Some (sum_list (map (scoreOf ?st') (examLeafAnswers ex)))"
  proof
    assume nm: "noMaxAnswers ex st"
    have nolim: "limitOf st r = None" if "r \<in> set (qrefs (examAsQuestion ex))" for r
      using nm that by (simp add: noMaxAnswers_def limitOf_def readMaxAnswers_def)
    have le: "limitOf st ?e = None"
      using nolim [of ?e] by (simp add: examAsQuestion_def)
    have ls: "limitOf st (s_element s) = None" if "s \<in> set ?ss" for s
      using nolim [of "s_element s"] that by (auto simp: examAsQuestion_def asQuestion_def)
    have lq: "qScore st q = sum_list (map (scoreOf st) (leafAnswers q))"
      if s: "s \<in> set ?ss" and q: "q \<in> set (s_questions s)" for s q
    proof (rule qScore_no_limits, rule ballI)
      fix r assume "r \<in> set (qrefs q)"
      then have "r \<in> set (qrefs (examAsQuestion ex))"
        using s q by (auto simp: examAsQuestion_def asQuestion_def)
      then show "limitOf st r = None" by (rule nolim)
    qed
    have "?POOL = concat (map (\<lambda>s. take (takeCount None (length (s_questions s)))
                                  (orderByDesc (\<lambda>v. v) (map (qScore st) (s_questions s)))) ?ss)"
      using ls by (intro arg_cong [where f = concat] map_cong refl) simp
    then have "sum_list ?POOL = sum_list (map (scoreOf st) (examLeafAnswers ex))"
      using pool_sum [of ?ss "qScore st" "scoreOf st"] lq by (simp add: examLeafAnswers_def)
    moreover have "map (scoreOf ?st') (examLeafAnswers ex) = map (scoreOf st) (examLeafAnswers ex)"
    proof (rule map_cong [OF refl])
      fix r assume "r \<in> set (examLeafAnswers ex)"
      then have "r \<in> set (arefs (examAsQuestion ex))"
        using leafAnswers_arefs
        by (fastforce simp: examLeafAnswers_def examAsQuestion_def asQuestion_def)
      then have "attr_get ?st' r ''max-score'' = attr_get st r ''max-score''"
        using D by blast
      then show "scoreOf ?st' r = scoreOf st r" by (rule scoreOf_cong)
    qed
    ultimately show "getNumericAttributeJs ''max-score'' ?e ?st'
          = Some (sum_list (map (scoreOf ?st') (examLeafAnswers ex)))"
      using le by (simp only: getNumJs_set_same topSum_None)
  qed
  show ?thesis using res A B C D by blast
qed



text \<open>The order the phase sums in is the descending sorted order, and it is stable.\<close>

lemma insertDesc_sorted:
  "sorted_wrt (\<lambda>a b. key b \<le> key a) ys \<Longrightarrow>
   sorted_wrt (\<lambda>a b. key b \<le> key a) (insertDesc key x ys)"
  by (induction ys) (auto simp: less_imp_le not_less)

lemma orderByDesc_sorted: "sorted_wrt (\<lambda>a b. key b \<le> key a) (orderByDesc key xs)"
  by (induction xs) (simp_all add: orderByDesc_def insertDesc_sorted)

lemma mset_insertDesc: "mset (insertDesc key x ys) = add_mset x (mset ys)"
  by (induction ys) auto

lemma mset_orderByDesc: "mset (orderByDesc key xs) = mset xs"
  by (induction xs) (simp_all add: orderByDesc_def mset_insertDesc)

lemma insertDesc_stable:
  "filter (\<lambda>y. key y = v) (insertDesc key x ys) =
     (if key x = v then x # filter (\<lambda>y. key y = v) ys else filter (\<lambda>y. key y = v) ys)"
  by (induction ys) auto

lemma orderByDesc_stable:
  "filter (\<lambda>y. key y = v) (orderByDesc key xs) = filter (\<lambda>y. key y = v) xs"
  by (induction xs) (simp_all add: orderByDesc_def insertDesc_stable)

lemma orderByDesc_sort: "orderByDesc (\<lambda>v. v) xs = rev (sort xs)"
proof -
  have "sorted (rev (orderByDesc (\<lambda>v. v) xs))"
    using orderByDesc_sorted [of "\<lambda>v. v" xs] by (simp add: sorted_wrt_rev)
  moreover have "mset (rev (orderByDesc (\<lambda>v. v) xs)) = mset xs"
    by (simp add: mset_orderByDesc)
  ultimately have "sort xs = rev (orderByDesc (\<lambda>v. v) xs)"
    by (simp add: properties_for_sort)
  then show ?thesis by simp
qed

lemma topSum_largest:
  "topSum k xs = sumOfLargest (case k of None \<Rightarrow> length xs | Some k \<Rightarrow> nat k) xs"
  by (simp add: topSum_def sumOfLargest_def takeCount_def orderByDesc_sort)

lemma limitOf_eq: "limitOf st r = getNumericAttribute ''max-answers'' r st"
  by (auto simp: limitOf_def readMaxAnswers_def getNumericAttribute_def split: option.splits)

lemma scoreOf_read:
  "getNumericAttributeJs ''max-score'' r st \<noteq> None \<Longrightarrow>
   getNumericAttributeJs ''max-score'' r st = Some (scoreOf st r)"
  by (auto simp: scoreOf_def)


text \<open>
  C4. After the propagation phase every question's max-score is the sum of the K largest
  max-scores of its answerable set (its child questions if it has any, otherwise its own
  answers), K being its declared max-answers or else the size of the set; every section's
  max-score is the same aggregate of its questions (so a section declaring max-answers k
  over more than k questions gets the sum of its k best question scores); with no
  max-answers declared anywhere the exam's max-score is the sum of the max-scores of all
  leaf answers. The answers' own max-scores and every other attribute are left as they
  were. Equal scores are taken in document order, which the sum does not depend on.
\<close>

theorem countMaxScores_propagation:
  assumes ok: "examOk ex st"
  shows "\<exists>st'. countMaxScores ex st = Some st' \<and>
    (\<forall>q \<in> set (allQuestions ex). \<exists>vs.
        map (\<lambda>r. getNumericAttributeJs ''max-score'' r st')
            (if childQuestions q \<noteq> [] then map q_element (childQuestions q)
             else map a_element (q_answers q)) = map Some vs \<and>
        getNumericAttributeJs ''max-score'' (q_element q) st'
          = Some (sumOfLargest
                    (case getNumericAttribute ''max-answers'' (q_element q) st' of
                       None \<Rightarrow> length vs | Some k \<Rightarrow> nat k) vs)) \<and>
    (\<forall>s \<in> set (sections ex). \<exists>vs.
        map (\<lambda>q. getNumericAttributeJs ''max-score'' (q_element q) st') (s_questions s)
          = map Some vs \<and>
        getNumericAttributeJs ''max-score'' (s_element s) st'
          = Some (sumOfLargest
                    (case getNumericAttribute ''max-answers'' (s_element s) st' of
                       None \<Rightarrow> length vs | Some k \<Rightarrow> nat k) vs)) \<and>
    (noMaxAnswers ex st \<longrightarrow> (\<exists>vs.
        map (\<lambda>r. getNumericAttributeJs ''max-score'' r st') (examLeafAnswers ex) = map Some vs \<and>
        getNumericAttributeJs ''max-score'' (e_element ex) st' = Some (sum_list vs))) \<and>
    (\<forall>r n. n \<noteq> ''max-score'' \<or> r \<in> set (arefs (examAsQuestion ex)) \<longrightarrow>
        attr_get st' r n = attr_get st r n)"
proof -
  from countMaxScores_effect [OF ok] obtain st' where
    H: "countMaxScores ex st = Some st' \<and>
    (\<forall>q \<in> set (allQuestions ex).
        getNumericAttributeJs ''max-score'' (q_element q) st'
          = Some (topSum (limitOf st' (q_element q)) (map (scoreOf st') (answerables q)))) \<and>
    (\<forall>s \<in> set (sections ex).
        getNumericAttributeJs ''max-score'' (s_element s) st'
          = Some (topSum (limitOf st' (s_element s))
                    (map (\<lambda>q. scoreOf st' (q_element q)) (s_questions s)))) \<and>
    (noMaxAnswers ex st \<longrightarrow>
        getNumericAttributeJs ''max-score'' (e_element ex) st'
          = Some (sum_list (map (scoreOf st') (examLeafAnswers ex)))) \<and>
    (\<forall>r n. n \<noteq> ''max-score'' \<or> r \<in> set (arefs (examAsQuestion ex)) \<longrightarrow>
        attr_get st' r n = attr_get st r n)" ..
  note res = H [THEN conjunct1]
  note A = H [THEN conjunct2, THEN conjunct1]
  note B = H [THEN conjunct2, THEN conjunct2, THEN conjunct1]
  note C = H [THEN conjunct2, THEN conjunct2, THEN conjunct2, THEN conjunct1]
  note D = H [THEN conjunct2, THEN conjunct2, THEN conjunct2, THEN conjunct2]
  have okq: "qOk [examAsQuestion ex] st" using ok by (simp add: examOk_def)
  have rdA: "getNumericAttributeJs ''max-score'' r st' = Some (scoreOf st' r)"
    if r: "r \<in> set (arefs (examAsQuestion ex))" for r
  proof -
    have "getNumericAttributeJs ''max-score'' r st \<noteq> None"
      using okq r by (simp add: qOk_def readableQ_def)
    moreover have "getNumericAttributeJs ''max-score'' r st' = getNumericAttributeJs ''max-score'' r st"
      using D r by (intro getNumJs_cong) blast
    ultimately have "getNumericAttributeJs ''max-score'' r st' \<noteq> None" by simp
    then show ?thesis by (rule scoreOf_read)
  qed
  have rdQ: "getNumericAttributeJs ''max-score'' (q_element q) st' = Some (scoreOf st' (q_element q))"
    if "q \<in> set (allQuestions ex)" for q
    using A that by (intro scoreOf_read) auto
  have ar_sub: "set (arefs q) \<subseteq> set (arefs (examAsQuestion ex))"
    if qin: "q \<in> set (allQuestions ex)" for q
  proof -
    obtain s q0 where s: "s \<in> set (sections ex)" "q0 \<in> set (s_questions s)" "q \<in> set (subQuestions q0)"
      using qin by (auto simp: allQuestions_def)
    have "set (arefs q) \<subseteq> set (arefs q0)" using s(3) by (rule subQuestions_arefs_subset)
    then show ?thesis using s(1,2) by (fastforce simp: examAsQuestion_def asQuestion_def)
  qed
  have ch_in: "c \<in> set (allQuestions ex)"
    if qin: "q \<in> set (allQuestions ex)" and cin: "c \<in> set (childQuestions q)" for q c
  proof -
    obtain q0 where q0: "q0 \<in> set (concat (map s_questions (sections ex)))" "q \<in> set (subQuestions q0)"
      using qin by (auto simp: allQuestions_def)
    have "c \<in> set (subQuestions q0)" using subQuestions_child [OF q0(2) cin] .
    then show ?thesis using q0(1) by (auto simp: allQuestions_def)
  qed
  have top_in: "q \<in> set (allQuestions ex)" if "s \<in> set (sections ex)" "q \<in> set (s_questions s)" for s q
    using that subQuestions_self [of q] by (auto simp: allQuestions_def)
  have PA: "\<forall>q \<in> set (allQuestions ex). \<exists>vs.
        map (\<lambda>r. getNumericAttributeJs ''max-score'' r st')
            (if childQuestions q \<noteq> [] then map q_element (childQuestions q)
             else map a_element (q_answers q)) = map Some vs \<and>
        getNumericAttributeJs ''max-score'' (q_element q) st'
          = Some (sumOfLargest
                    (case getNumericAttribute ''max-answers'' (q_element q) st' of
                       None \<Rightarrow> length vs | Some k \<Rightarrow> nat k) vs)"
  proof
    fix q assume q: "q \<in> set (allQuestions ex)"
    let ?rs = "if childQuestions q \<noteq> [] then map q_element (childQuestions q)
               else map a_element (q_answers q)"
    let ?vs = "map (scoreOf st') ?rs"
    have rs: "answerables q = ?rs" by (simp add: answerables_def)
    have "\<forall>r \<in> set ?rs. getNumericAttributeJs ''max-score'' r st' = Some (scoreOf st' r)"
    proof (cases "childQuestions q = []")
      case True
      then show ?thesis using rdA ar_sub [OF q] arefs_answers [of _ q] by auto
    next
      case False
      then show ?thesis using rdQ ch_in [OF q] by auto
    qed
    then have m: "map (\<lambda>r. getNumericAttributeJs ''max-score'' r st') ?rs = map Some ?vs"
      by (simp add: comp_def)
    have "getNumericAttributeJs ''max-score'' (q_element q) st'
          = Some (sumOfLargest
                    (case getNumericAttribute ''max-answers'' (q_element q) st' of
                       None \<Rightarrow> length ?vs | Some k \<Rightarrow> nat k) ?vs)"
      using A [THEN bspec, OF q] by (simp only: rs topSum_largest limitOf_eq)
    then show "\<exists>vs.
        map (\<lambda>r. getNumericAttributeJs ''max-score'' r st') ?rs = map Some vs \<and>
        getNumericAttributeJs ''max-score'' (q_element q) st'
          = Some (sumOfLargest
                    (case getNumericAttribute ''max-answers'' (q_element q) st' of
                       None \<Rightarrow> length vs | Some k \<Rightarrow> nat k) vs)"
      using m by blast
  qed
  have PB: "\<forall>s \<in> set (sections ex). \<exists>vs.
        map (\<lambda>q. getNumericAttributeJs ''max-score'' (q_element q) st') (s_questions s)
          = map Some vs \<and>
        getNumericAttributeJs ''max-score'' (s_element s) st'
          = Some (sumOfLargest
                    (case getNumericAttribute ''max-answers'' (s_element s) st' of
                       None \<Rightarrow> length vs | Some k \<Rightarrow> nat k) vs)"
  proof
    fix s assume s: "s \<in> set (sections ex)"
    let ?vs = "map (\<lambda>q. scoreOf st' (q_element q)) (s_questions s)"
    have m: "map (\<lambda>q. getNumericAttributeJs ''max-score'' (q_element q) st') (s_questions s)
             = map Some ?vs"
      using rdQ top_in [OF s] by (simp add: comp_def)
    have "getNumericAttributeJs ''max-score'' (s_element s) st'
          = Some (sumOfLargest
                    (case getNumericAttribute ''max-answers'' (s_element s) st' of
                       None \<Rightarrow> length ?vs | Some k \<Rightarrow> nat k) ?vs)"
      using B [THEN bspec, OF s] by (simp only: topSum_largest limitOf_eq)
    then show "\<exists>vs.
        map (\<lambda>q. getNumericAttributeJs ''max-score'' (q_element q) st') (s_questions s)
          = map Some vs \<and>
        getNumericAttributeJs ''max-score'' (s_element s) st'
          = Some (sumOfLargest
                    (case getNumericAttribute ''max-answers'' (s_element s) st' of
                       None \<Rightarrow> length vs | Some k \<Rightarrow> nat k) vs)"
      using m by blast
  qed
  have PC: "noMaxAnswers ex st \<longrightarrow> (\<exists>vs.
        map (\<lambda>r. getNumericAttributeJs ''max-score'' r st') (examLeafAnswers ex) = map Some vs \<and>
        getNumericAttributeJs ''max-score'' (e_element ex) st' = Some (sum_list vs))"
  proof
    assume nm: "noMaxAnswers ex st"
    let ?vs = "map (scoreOf st') (examLeafAnswers ex)"
    have "set (examLeafAnswers ex) \<subseteq> set (arefs (examAsQuestion ex))"
      using leafAnswers_arefs
      by (fastforce simp: examLeafAnswers_def examAsQuestion_def asQuestion_def)
    then have "map (\<lambda>r. getNumericAttributeJs ''max-score'' r st') (examLeafAnswers ex) = map Some ?vs"
      using rdA by (auto simp: comp_def)
    then show "\<exists>vs.
        map (\<lambda>r. getNumericAttributeJs ''max-score'' r st') (examLeafAnswers ex) = map Some vs \<and>
        getNumericAttributeJs ''max-score'' (e_element ex) st' = Some (sum_list vs)"
      using C nm by blast
  qed
  show ?thesis using res PA PB PC D by blast
qed


lemma map_Some_eq: "map Some vs = map Some ws \<Longrightarrow> vs = ws"
  by (simp add: inj_map_eq_map)

theorem countMaxScores_propagation_witness:
  "examOk examW storeP \<and>
   (\<exists>st'. countMaxScores examW storeP = Some st' \<and>
      getNumericAttributeJs ''max-score'' 3 st' = Some (Num 3) \<and>
      getNumericAttributeJs ''max-score'' 5 st' = Some (Num 5) \<and>
      getNumericAttributeJs ''max-score'' 1 st' = Some (Num 5)) \<and>
   examOk examW storeQ \<and> noMaxAnswers examW storeQ \<and>
   (\<exists>st'. countMaxScores examW storeQ = Some st' \<and>
      getNumericAttributeJs ''max-score'' 0 st' = Some (Num 10)) \<and>
   examOk examW storeU \<and>
   (\<exists>st'. countMaxScores examW storeU = Some st' \<and>
      getNumericAttributeJs ''max-score'' 3 st' = Some NaN)"
proof -
  have okP: "examOk examW storeP" by code_simp
  have okQ: "examOk examW storeQ" by code_simp
  have okU: "examOk examW storeU" by code_simp
  have nm: "noMaxAnswers examW storeQ" by code_simp
  have ar: "set (arefs (examAsQuestion examW)) = {4, 6, 8}" by code_simp
  have q3: "Question 3 [] [Answer 4 3] \<in> set (allQuestions examW)" by code_simp
  have q5: "Question 5 [] [Answer 6 5] \<in> set (allQuestions examW)" by code_simp
  have s1: "Section 1 [Question 3 [] [Answer 4 3], Question 5 [] [Answer 6 5]]
              \<in> set (sections examW)"
    by (simp add: examW_def)
  have leaf: "examLeafAnswers examW = [4, 6, 8]" by code_simp
  have e: "e_element examW = 0" by (simp add: examW_def)
  have question:
    "getNumericAttributeJs ''max-score'' q st' = Some v"
    if PA: "\<forall>q \<in> set (allQuestions examW). \<exists>vs.
        map (\<lambda>r. getNumericAttributeJs ''max-score'' r st')
            (if childQuestions q \<noteq> [] then map q_element (childQuestions q)
             else map a_element (q_answers q)) = map Some vs \<and>
        getNumericAttributeJs ''max-score'' (q_element q) st'
          = Some (sumOfLargest
                    (case getNumericAttribute ''max-answers'' (q_element q) st' of
                       None \<Rightarrow> length vs | Some k \<Rightarrow> nat k) vs)"
      and D: "\<forall>r n. n \<noteq> ''max-score'' \<or> r \<in> set (arefs (examAsQuestion examW)) \<longrightarrow>
        attr_get st' r n = attr_get st r n"
      and qin: "Question q [] [Answer a q] \<in> set (allQuestions examW)"
      and a: "a \<in> {4, 6, 8}"
      and av: "getNumericAttributeJs ''max-score'' a st = Some v"
      and lim: "getNumericAttribute ''max-answers'' q st = None"
    for q a st st' v
  proof -
    from PA [THEN bspec, OF qin] have
      "\<exists>vs. map (\<lambda>r. getNumericAttributeJs ''max-score'' r st') [a] = map Some vs \<and>
        getNumericAttributeJs ''max-score'' q st'
          = Some (sumOfLargest
                    (case getNumericAttribute ''max-answers'' q st' of
                       None \<Rightarrow> length vs | Some k \<Rightarrow> nat k) vs)"
      by simp
    then obtain vs where
      mr: "map (\<lambda>r. getNumericAttributeJs ''max-score'' r st') [a] = map Some vs \<and>
        getNumericAttributeJs ''max-score'' q st'
          = Some (sumOfLargest
                    (case getNumericAttribute ''max-answers'' q st' of
                       None \<Rightarrow> length vs | Some k \<Rightarrow> nat k) vs)" ..
    note m = mr [THEN conjunct1] and r = mr [THEN conjunct2]
    have "getNumericAttributeJs ''max-score'' a st' = getNumericAttributeJs ''max-score'' a st"
      using D a ar by (intro getNumJs_cong) blast
    then have "map Some vs = map Some [v]" using m av by simp
    then have vs: "vs = [v]" by (rule map_Some_eq)
    have "getNumericAttribute ''max-answers'' q st' = getNumericAttribute ''max-answers'' q st"
      using D by (intro getNum_cong) simp
    then have "getNumericAttributeJs ''max-score'' q st' = Some (sumOfLargest 1 [v])"
      using r vs lim by simp
    moreover have "sumOfLargest 1 [v] = v" by (simp add: sumOfLargest_def)
    ultimately show ?thesis by simp
  qed
  have first: "\<exists>st'. countMaxScores examW storeP = Some st' \<and>
      getNumericAttributeJs ''max-score'' 3 st' = Some (Num 3) \<and>
      getNumericAttributeJs ''max-score'' 5 st' = Some (Num 5) \<and>
      getNumericAttributeJs ''max-score'' 1 st' = Some (Num 5)"
  proof -
    from countMaxScores_propagation [OF okP] obtain st' where
      H: "countMaxScores examW storeP = Some st' \<and>
    (\<forall>q \<in> set (allQuestions examW). \<exists>vs.
        map (\<lambda>r. getNumericAttributeJs ''max-score'' r st')
            (if childQuestions q \<noteq> [] then map q_element (childQuestions q)
             else map a_element (q_answers q)) = map Some vs \<and>
        getNumericAttributeJs ''max-score'' (q_element q) st'
          = Some (sumOfLargest
                    (case getNumericAttribute ''max-answers'' (q_element q) st' of
                       None \<Rightarrow> length vs | Some k \<Rightarrow> nat k) vs)) \<and>
    (\<forall>s \<in> set (sections examW). \<exists>vs.
        map (\<lambda>q. getNumericAttributeJs ''max-score'' (q_element q) st') (s_questions s)
          = map Some vs \<and>
        getNumericAttributeJs ''max-score'' (s_element s) st'
          = Some (sumOfLargest
                    (case getNumericAttribute ''max-answers'' (s_element s) st' of
                       None \<Rightarrow> length vs | Some k \<Rightarrow> nat k) vs)) \<and>
    (noMaxAnswers examW storeP \<longrightarrow> (\<exists>vs.
        map (\<lambda>r. getNumericAttributeJs ''max-score'' r st') (examLeafAnswers examW) = map Some vs \<and>
        getNumericAttributeJs ''max-score'' (e_element examW) st' = Some (sum_list vs))) \<and>
    (\<forall>r n. n \<noteq> ''max-score'' \<or> r \<in> set (arefs (examAsQuestion examW)) \<longrightarrow>
        attr_get st' r n = attr_get storeP r n)" ..
    note r = H [THEN conjunct1]
    note PA = H [THEN conjunct2, THEN conjunct1]
    note PB = H [THEN conjunct2, THEN conjunct2, THEN conjunct1]
    note D = H [THEN conjunct2, THEN conjunct2, THEN conjunct2, THEN conjunct2]
    have a4: "getNumericAttributeJs ''max-score'' 4 storeP = Some (Num 3)" by code_simp
    have a6: "getNumericAttributeJs ''max-score'' 6 storeP = Some (Num 5)" by code_simp
    have l3: "getNumericAttribute ''max-answers'' 3 storeP = None" by code_simp
    have l5: "getNumericAttribute ''max-answers'' 5 storeP = None" by code_simp
    have l1: "getNumericAttribute ''max-answers'' 1 storeP = Some 1" by code_simp
    have v3: "getNumericAttributeJs ''max-score'' 3 st' = Some (Num 3)"
      using question [OF PA D q3 _ a4 l3] by simp
    have v5: "getNumericAttributeJs ''max-score'' 5 st' = Some (Num 5)"
      using question [OF PA D q5 _ a6 l5] by simp
    from PB [THEN bspec, OF s1] have
      "\<exists>vs. map (\<lambda>q. getNumericAttributeJs ''max-score'' (q_element q) st')
            [Question 3 [] [Answer 4 3], Question 5 [] [Answer 6 5]] = map Some vs \<and>
        getNumericAttributeJs ''max-score'' 1 st'
          = Some (sumOfLargest
                    (case getNumericAttribute ''max-answers'' 1 st' of
                       None \<Rightarrow> length vs | Some k \<Rightarrow> nat k) vs)"
      by simp
    then obtain vs where
      mr: "map (\<lambda>q. getNumericAttributeJs ''max-score'' (q_element q) st')
            [Question 3 [] [Answer 4 3], Question 5 [] [Answer 6 5]] = map Some vs \<and>
        getNumericAttributeJs ''max-score'' 1 st'
          = Some (sumOfLargest
                    (case getNumericAttribute ''max-answers'' 1 st' of
                       None \<Rightarrow> length vs | Some k \<Rightarrow> nat k) vs)" ..
    note m = mr [THEN conjunct1] and rs = mr [THEN conjunct2]
    have "map Some vs = map Some [Num 3, Num 5]" using m v3 v5 by simp
    then have vs: "vs = [Num 3, Num 5]" by (rule map_Some_eq)
    have "getNumericAttribute ''max-answers'' 1 st' = getNumericAttribute ''max-answers'' 1 storeP"
      using D by (intro getNum_cong) simp
    then have "getNumericAttributeJs ''max-score'' 1 st' = Some (sumOfLargest 1 [Num 3, Num 5])"
      using rs vs l1 by simp
    moreover have "sumOfLargest 1 [Num 3, Num 5] = Num 5" by code_simp
    ultimately show ?thesis using r v3 v5 by simp
  qed
  have second: "\<exists>st'. countMaxScores examW storeQ = Some st' \<and>
      getNumericAttributeJs ''max-score'' 0 st' = Some (Num 10)"
  proof -
    from countMaxScores_propagation [OF okQ] obtain st' where
      H: "countMaxScores examW storeQ = Some st' \<and>
    (\<forall>q \<in> set (allQuestions examW). \<exists>vs.
        map (\<lambda>r. getNumericAttributeJs ''max-score'' r st')
            (if childQuestions q \<noteq> [] then map q_element (childQuestions q)
             else map a_element (q_answers q)) = map Some vs \<and>
        getNumericAttributeJs ''max-score'' (q_element q) st'
          = Some (sumOfLargest
                    (case getNumericAttribute ''max-answers'' (q_element q) st' of
                       None \<Rightarrow> length vs | Some k \<Rightarrow> nat k) vs)) \<and>
    (\<forall>s \<in> set (sections examW). \<exists>vs.
        map (\<lambda>q. getNumericAttributeJs ''max-score'' (q_element q) st') (s_questions s)
          = map Some vs \<and>
        getNumericAttributeJs ''max-score'' (s_element s) st'
          = Some (sumOfLargest
                    (case getNumericAttribute ''max-answers'' (s_element s) st' of
                       None \<Rightarrow> length vs | Some k \<Rightarrow> nat k) vs)) \<and>
    (noMaxAnswers examW storeQ \<longrightarrow> (\<exists>vs.
        map (\<lambda>r. getNumericAttributeJs ''max-score'' r st') (examLeafAnswers examW) = map Some vs \<and>
        getNumericAttributeJs ''max-score'' (e_element examW) st' = Some (sum_list vs))) \<and>
    (\<forall>r n. n \<noteq> ''max-score'' \<or> r \<in> set (arefs (examAsQuestion examW)) \<longrightarrow>
        attr_get st' r n = attr_get storeQ r n)" ..
    note r = H [THEN conjunct1]
    note PC = H [THEN conjunct2, THEN conjunct2, THEN conjunct2, THEN conjunct1]
    note D = H [THEN conjunct2, THEN conjunct2, THEN conjunct2, THEN conjunct2]
    from PC nm have
      "\<exists>vs. map (\<lambda>r. getNumericAttributeJs ''max-score'' r st') [4, 6, 8] = map Some vs \<and>
        getNumericAttributeJs ''max-score'' 0 st' = Some (sum_list vs)"
      using leaf e by simp
    then obtain vs where
      mr: "map (\<lambda>r. getNumericAttributeJs ''max-score'' r st') [4, 6, 8] = map Some vs \<and>
        getNumericAttributeJs ''max-score'' 0 st' = Some (sum_list vs)" ..
    note m = mr [THEN conjunct1] and rs = mr [THEN conjunct2]
    have g: "getNumericAttributeJs ''max-score'' a st' = getNumericAttributeJs ''max-score'' a storeQ"
      if "a \<in> {4, 6, 8}" for a
      using D ar that by (intro getNumJs_cong) blast
    have a4: "getNumericAttributeJs ''max-score'' 4 storeQ = Some (Num 3)" by code_simp
    have a6: "getNumericAttributeJs ''max-score'' 6 storeQ = Some (Num 5)" by code_simp
    have a8: "getNumericAttributeJs ''max-score'' 8 storeQ = Some (Num 2)" by code_simp
    have "map Some vs = map Some [Num 3, Num 5, Num 2]"
      using m g [of 4] g [of 6] g [of 8] a4 a6 a8 by simp
    then have vs: "vs = [Num 3, Num 5, Num 2]" by (rule map_Some_eq)
    have "sum_list [Num 3, Num 5, Num 2] = Num 10" by (simp add: zero_jsnum_def)
    then show ?thesis using r rs vs by simp
  qed
  have third: "\<exists>st'. countMaxScores examW storeU = Some st' \<and>
      getNumericAttributeJs ''max-score'' 3 st' = Some NaN"
  proof -
    from countMaxScores_propagation [OF okU] obtain st' where
      H: "countMaxScores examW storeU = Some st' \<and>
    (\<forall>q \<in> set (allQuestions examW). \<exists>vs.
        map (\<lambda>r. getNumericAttributeJs ''max-score'' r st')
            (if childQuestions q \<noteq> [] then map q_element (childQuestions q)
             else map a_element (q_answers q)) = map Some vs \<and>
        getNumericAttributeJs ''max-score'' (q_element q) st'
          = Some (sumOfLargest
                    (case getNumericAttribute ''max-answers'' (q_element q) st' of
                       None \<Rightarrow> length vs | Some k \<Rightarrow> nat k) vs)) \<and>
    (\<forall>s \<in> set (sections examW). \<exists>vs.
        map (\<lambda>q. getNumericAttributeJs ''max-score'' (q_element q) st') (s_questions s)
          = map Some vs \<and>
        getNumericAttributeJs ''max-score'' (s_element s) st'
          = Some (sumOfLargest
                    (case getNumericAttribute ''max-answers'' (s_element s) st' of
                       None \<Rightarrow> length vs | Some k \<Rightarrow> nat k) vs)) \<and>
    (noMaxAnswers examW storeU \<longrightarrow> (\<exists>vs.
        map (\<lambda>r. getNumericAttributeJs ''max-score'' r st') (examLeafAnswers examW) = map Some vs \<and>
        getNumericAttributeJs ''max-score'' (e_element examW) st' = Some (sum_list vs))) \<and>
    (\<forall>r n. n \<noteq> ''max-score'' \<or> r \<in> set (arefs (examAsQuestion examW)) \<longrightarrow>
        attr_get st' r n = attr_get storeU r n)" ..
    note r = H [THEN conjunct1]
    note PA = H [THEN conjunct2, THEN conjunct1]
    note D = H [THEN conjunct2, THEN conjunct2, THEN conjunct2, THEN conjunct2]
    have a4: "getNumericAttributeJs ''max-score'' 4 storeU = Some NaN" by code_simp
    have l3: "getNumericAttribute ''max-answers'' 3 storeU = None" by code_simp
    have "getNumericAttributeJs ''max-score'' 3 st' = Some NaN"
      using question [OF PA D q3 _ a4 l3] by simp
    then show ?thesis using r by blast
  qed
  show ?thesis using okP okQ okU nm first second third by blast
qed

section \<open>Shuffling the answer options\<close>

lemma ref_of_setChildNodes [simp]: "ref_of (setChildNodes f n) = ref_of n"
  by (cases n) simp_all

lemma name_of_setChildNodes [simp]: "name_of (setChildNodes f n) = name_of n"
  by (cases n) simp_all

lemma childNodes_setChildNodes_Element:
  "childNodes (setChildNodes f (Element r ns nm ks)) = f ks"
  by simp

lemma lookup_ref:
  "lookup r t = Some n \<Longrightarrow> ref_of n = r \<and> r \<in> set (refs t)"
  "lookup_list r ks = Some n \<Longrightarrow> ref_of n = r \<and> r \<in> set (refsL ks)"
  by (induction r t and r ks rule: lookup_lookup_list.induct)
     (auto split: if_splits option.splits)

lemma lookup_None:
  "r \<notin> set (refs t) \<Longrightarrow> lookup r t = None"
  "r \<notin> set (refsL ks) \<Longrightarrow> lookup_list r ks = None"
  by (induction r t and r ks rule: lookup_lookup_list.induct) auto

lemma lookup_in_refs:
  "r \<in> set (refs t) \<Longrightarrow> lookup r t \<noteq> None"
  "r \<in> set (refsL ks) \<Longrightarrow> lookup_list r ks \<noteq> None"
  by (induction r t and r ks rule: lookup_lookup_list.induct)
     (auto split: option.splits)

lemma updateAt_id:
  "r \<notin> set (refs t) \<Longrightarrow> updateAt r g t = t"
  "r \<notin> set (refsL ks) \<Longrightarrow> map (updateAt r g) ks = ks"
  by (induction t and ks rule: refs_refsL.induct) auto

lemma ref_of_updateAt [simp]:
  "(\<And>n. ref_of (g n) = ref_of n) \<Longrightarrow> ref_of (updateAt r g t) = ref_of t"
  by (cases t) auto

lemma refsL_mset: "mset (refsL ks) = (\<Sum>k \<in># mset ks. mset (refs k))"
  by (induction ks) simp_all

lemma refsL_perm: "mset ks' = mset ks \<Longrightarrow> mset (refsL ks') = mset (refsL ks)"
  by (simp add: refsL_mset)

lemma refsL_child: "k \<in> set ks \<Longrightarrow> set (refs k) \<subseteq> set (refsL ks)"
  by (induction ks) auto

lemma lookup_list_Some_iff:
  assumes "distinct (refsL ks)"
  shows "lookup_list r ks = Some n \<longleftrightarrow> (\<exists>k \<in> set ks. lookup r k = Some n)"
  using assms
proof (induction ks)
  case Nil
  then show ?case by simp
next
  case (Cons k ks)
  have d: "distinct (refs k)" "distinct (refsL ks)" "set (refs k) \<inter> set (refsL ks) = {}"
    using Cons.prems by auto
  show ?case
  proof (cases "lookup r k")
    case None
    then show ?thesis using Cons.IH d by auto
  next
    case (Some m)
    then have "r \<in> set (refs k)" using lookup_ref(1) by blast
    then have "r \<notin> set (refsL ks)" using d by auto
    then have "\<forall>k' \<in> set ks. lookup r k' = None"
      using refsL_child lookup_None(1) by blast
    then show ?thesis using Some by auto
  qed
qed

lemma lookup_list_perm:
  assumes "distinct (refsL ks)" and "mset ks' = mset ks"
  shows "lookup_list r ks' = lookup_list r ks"
proof -
  have d': "distinct (refsL ks')"
    using assms refsL_perm [OF assms(2)] by (metis mset_eq_imp_distinct_iff)
  have s: "set ks' = set ks" using assms(2) by (metis mset_eq_setD)
  have "(lookup_list r ks' = Some n) = (lookup_list r ks = Some n)" for n
    unfolding lookup_list_Some_iff [OF assms(1)] lookup_list_Some_iff [OF d'] s ..
  then show ?thesis
    by (metis option.exhaust)
qed

lemma lookup_refs_subset:
  "lookup r t = Some n \<Longrightarrow> set (refs n) \<subseteq> set (refs t)"
  "lookup_list r ks = Some n \<Longrightarrow> set (refs n) \<subseteq> set (refsL ks)"
  by (induction r t and r ks rule: lookup_lookup_list.induct)
     (auto split: if_splits option.splits)

text \<open>A function on child lists that only permutes a list of nodes with distinct references.\<close>

lemma distinct_refsL_children: "distinct (refsL ks) \<Longrightarrow> distinct (map ref_of ks)"
proof (induction ks)
  case Nil
  then show ?case by simp
next
  case (Cons k ks)
  have "ref_of k \<in> set (refs k)" by (cases k) simp_all
  moreover have "ref_of k' \<in> set (refsL ks)" if "k' \<in> set ks" for k'
  proof -
    have "ref_of k' \<in> set (refs k')" by (cases k') simp_all
    then show ?thesis using refsL_child that by blast
  qed
  ultimately show ?case using Cons by auto
qed

lemma lookup_updateAt_both:
  assumes perm: "\<And>ks. distinct (map ref_of ks) \<Longrightarrow> mset (f ks) = mset ks"
  shows "distinct (refs t) \<Longrightarrow>
           lookup r' (updateAt r (setChildNodes f) t) =
             map_option (if r' = r then setChildNodes f else updateAt r (setChildNodes f))
               (lookup r' t)"
    and "distinct (refsL ks) \<Longrightarrow>
           lookup_list r' (map (updateAt r (setChildNodes f)) ks) =
             map_option (if r' = r then setChildNodes f else updateAt r (setChildNodes f))
               (lookup_list r' ks)"
proof (induction t and ks rule: refs_refsL.induct)
  case (1 r0 ns nm ks)
  let ?g = "setChildNodes f"
  have dk: "distinct (refsL ks)" and r0: "r0 \<notin> set (refsL ks)" using 1(2) by auto
  show ?case
  proof (cases "r = r0")
    case True
    have m: "mset (f ks) = mset ks" using perm distinct_refsL_children dk by blast
    have same: "lookup_list r' (f ks) = lookup_list r' ks"
      using lookup_list_perm [OF dk m] .
    show ?thesis
    proof (cases "r' = r0")
      case True
      then show ?thesis using \<open>r = r0\<close> by simp
    next
      case False
      have "map_option (updateAt r ?g) (lookup_list r' ks) = lookup_list r' ks"
      proof (cases "lookup_list r' ks")
        case None
        then show ?thesis by simp
      next
        case (Some n)
        have "set (refs n) \<subseteq> set (refsL ks)" using lookup_refs_subset(2) [OF Some] .
        then have "r \<notin> set (refs n)" using r0 True by auto
        then have "updateAt r ?g n = n" using updateAt_id(1) by blast
        then show ?thesis using Some by simp
      qed
      then show ?thesis using True False same by simp
    qed
  next
    case False
    show ?thesis
      using False 1(1) [OF dk] by auto
  qed
next
  case (5 k ks)
  have d: "distinct (refs k)" "distinct (refsL ks)" using 5(3) by auto
  show ?case
    using 5(1) [OF d(1)] 5(2) [OF d(2)] by (auto split: option.splits)
qed simp_all


lemma refs_updateAt_mset_both:
  assumes perm: "\<And>ks. distinct (map ref_of ks) \<Longrightarrow> mset (f ks) = mset ks"
  shows "distinct (refs t) \<Longrightarrow> mset (refs (updateAt r (setChildNodes f) t)) = mset (refs t)"
    and "distinct (refsL ks) \<Longrightarrow>
           mset (refsL (map (updateAt r (setChildNodes f)) ks)) = mset (refsL ks)"
proof (induction t and ks rule: refs_refsL.induct)
  case (1 r0 ns nm ks)
  have dk: "distinct (refsL ks)" using 1(2) by auto
  show ?case
  proof (cases "r = r0")
    case True
    have "mset (f ks) = mset ks" using perm distinct_refsL_children dk by blast
    then have "mset (refsL (f ks)) = mset (refsL ks)" by (rule refsL_perm)
    then show ?thesis using True by simp
  next
    case False
    then show ?thesis using 1(1) [OF dk] by simp
  qed
next
  case (5 k ks)
  have d: "distinct (refs k)" "distinct (refsL ks)" using 5(3) by auto
  show ?case using 5(1) [OF d(1)] 5(2) [OF d(2)] by simp
qed simp_all

lemma distinct_updateAt:
  assumes "\<And>ks. distinct (map ref_of ks) \<Longrightarrow> mset (f ks) = mset ks"
    and "distinct (refs t)"
  shows "distinct (refs (updateAt r (setChildNodes f) t))"
  using refs_updateAt_mset_both(1) [of f t r, OF assms] assms(2)
  by (metis mset_eq_imp_distinct_iff)

subsection \<open>The shuffle of one answer in closed form\<close>

lemma insort_key_map:
  "insort_key f (g x) (map g ys) = map g (insort_key (\<lambda>y. f (g y)) x ys)"
  by (induction ys) simp_all

lemma sort_key_map: "sort_key f (map g xs) = map g (sort_key (\<lambda>y. f (g y)) xs)"
  by (induction xs) (simp_all add: insort_key_map)

lemma indexed_map: "indexed xs = map (\<lambda>i. (i, xs ! i)) [0..<length xs]"
  unfolding indexed_def by (rule nth_equalityI) simp_all

lemma find_map_fun: "find P (map g xs) = map_option g (find (\<lambda>x. P (g x)) xs)"
  by (induction xs) simp_all

lemma find_nth: "find P xs = map_option ((!) xs) (find (\<lambda>i. P (xs ! i)) [0..<length xs])"
proof (induction xs)
  case Nil
  then show ?case by simp
next
  case (Cons x xs)
  have u: "[0..<length (x # xs)] = 0 # map Suc [0..<length xs]"
    by (simp add: upt_conv_Cons map_Suc_upt del: upt_Suc)
  show ?case
    unfolding u using Cons
    by (simp add: find_map_fun option.map_comp comp_def del: upt_Suc)
qed

lemma fold_addChild:
  "distinct (map ref_of xs) \<Longrightarrow>
     fold addChild xs ks = filter (\<lambda>k. ref_of k \<notin> ref_of ` set xs) ks @ xs"
proof (induction xs arbitrary: ks)
  case Nil
  then show ?case by simp
next
  case (Cons x xs)
  have nx: "ref_of x \<notin> ref_of ` set xs" using Cons.prems by auto
  have "fold addChild (x # xs) ks = fold addChild xs (addChild x ks)" by simp
  also have "\<dots> = filter (\<lambda>k. ref_of k \<notin> ref_of ` set xs) (addChild x ks) @ xs"
    using Cons by simp
  also have "filter (\<lambda>k. ref_of k \<notin> ref_of ` set xs) (addChild x ks) =
               filter (\<lambda>k. ref_of k \<notin> ref_of ` set (x # xs)) ks @ [x]"
    using nx unfolding addChild_def by (auto intro: filter_cong)
  finally show ?case by simp
qed

lemma ref_of_inj:
  "distinct (map ref_of ks) \<Longrightarrow> a \<in> set ks \<Longrightarrow> b \<in> set ks \<Longrightarrow> ref_of a = ref_of b \<Longrightarrow> a = b"
  by (meson distinct_map inj_onD)

lemma shuffleChildNodes_closed:
  assumes d: "distinct (map ref_of ks)"
  defines "opts \<equiv> filter (isE choiceAnswerOptionTypes) ks"
  shows "shuffleChildNodes st secret qid ks =
           filter (\<lambda>k. \<not> isE choiceAnswerOptionTypes k) ks @
           map ((!) opts) (shufflePermutation secret qid (length opts) (firstNoAnswer st opts))"
proof -
  define n where "n = length opts"
  define h where "h = optionHash secret qid n"
  define order where "order = sort_key h [0..<n]"
  define sorted where "sorted = map ((!) opts) order"
  define nonopts where "nonopts = filter (\<lambda>k. \<not> isE choiceAnswerOptionTypes k) ks"
  have dopts: "distinct (map ref_of opts)"
    unfolding opts_def using d by (simp add: distinct_map_filter)
  have osub: "set opts \<subseteq> set ks" unfolding opts_def by auto
  have oset: "set order = {0..<n}" and odist: "distinct order"
    unfolding order_def by simp_all
  have sortedOptions:
    "map snd (sortBy (\<lambda>(i, option). createHash ((StringOf (int (length opts)) @ qid) @ StringOf (int i) @ secret))
                (indexed opts)) = sorted"
    unfolding sortBy_def indexed_map sort_key_map sorted_def order_def h_def n_def
    by (simp add: createHash_def optionHash_def [abs_def] comp_def)
  have sset: "set sorted = set opts"
  proof -
    have "set sorted = (!) opts ` {0..<n}" unfolding sorted_def using oset by simp
    also have "\<dots> = set opts" unfolding n_def by (auto simp: set_conv_nth)
    finally show ?thesis .
  qed
  have nth_ref: "(ref_of (opts ! i) = ref_of (opts ! j)) = (i = j)" if "i < n" "j < n" for i j
    using dopts that unfolding n_def
    by (metis length_map nth_eq_iff_index_eq nth_map)
  have dsorted: "distinct (map ref_of sorted)"
  proof -
    have "inj_on (\<lambda>i. ref_of (opts ! i)) (set order)"
      unfolding oset by (rule inj_onI) (use nth_ref in auto)
    then show ?thesis unfolding sorted_def by (simp add: distinct_map odist comp_def)
  qed
  have nonopt_filter: "filter (\<lambda>k. ref_of k \<notin> ref_of ` set sorted) ks = nonopts"
    unfolding nonopts_def sset
  proof (rule filter_cong [OF refl])
    fix k assume k: "k \<in> set ks"
    show "(ref_of k \<notin> ref_of ` set opts) = (\<not> isE choiceAnswerOptionTypes k)"
    proof
      assume "ref_of k \<notin> ref_of ` set opts"
      then have "k \<notin> set opts" by auto
      then show "\<not> isE choiceAnswerOptionTypes k" using k unfolding opts_def by simp
    next
      assume no: "\<not> isE choiceAnswerOptionTypes k"
      show "ref_of k \<notin> ref_of ` set opts"
      proof
        assume "ref_of k \<in> ref_of ` set opts"
        then obtain o' where o': "o' \<in> set opts" "ref_of k = ref_of o'" by auto
        then have "k = o'" using ref_of_inj [OF d k] osub by blast
        then show False using o'(1) no unfolding opts_def by simp
      qed
    qed
  qed
  have ks1: "fold addChild sorted ks = nonopts @ sorted"
    using fold_addChild [OF dsorted] nonopt_filter by simp
  have fnd: "find (\<lambda>option. getAttribute ''type'' (ref_of option) st = Some ''no-answer'') opts =
               map_option ((!) opts) (firstNoAnswer st opts)"
    unfolding firstNoAnswer_def getAttribute_def by (rule find_nth)
  show ?thesis
  proof (cases "firstNoAnswer st opts")
    case None
    then show ?thesis
      unfolding shuffleChildNodes_def Let_def opts_def [symmetric] sortedOptions ks1 fnd
      by (simp add: shufflePermutation_def sorted_def order_def h_def n_def nonopts_def)
  next
    case (Some j)
    then have jn: "j < n"
      unfolding firstNoAnswer_def n_def by (auto simp: find_Some_iff)
    have jin: "opts ! j \<in> set ks" using osub jn unfolding n_def by auto
    have jopt: "isE choiceAnswerOptionTypes (opts ! j)"
      using jn nth_mem [of j opts] unfolding n_def opts_def by auto
    have f1: "filter (\<lambda>k. ref_of k \<noteq> ref_of (opts ! j)) nonopts = nonopts"
    proof (rule filter_True, rule ballI)
      fix k assume "k \<in> set nonopts"
      then have k: "k \<in> set ks" "\<not> isE choiceAnswerOptionTypes k" unfolding nonopts_def by auto
      show "ref_of k \<noteq> ref_of (opts ! j)"
        using ref_of_inj [OF d k(1) jin] k(2) jopt by auto
    qed
    have f2: "filter (\<lambda>k. ref_of k \<noteq> ref_of (opts ! j)) sorted =
                map ((!) opts) (filter (\<lambda>i. i \<noteq> j) order)"
      unfolding sorted_def filter_map comp_def
      by (rule arg_cong [where f = "map ((!) opts)"], rule filter_cong [OF refl])
         (use nth_ref jn oset in auto)
    have "addChild (opts ! j) (nonopts @ sorted) =
            nonopts @ map ((!) opts) (filter (\<lambda>i. i \<noteq> j) order) @ [opts ! j]"
      unfolding addChild_def using f1 f2 by simp
    then show ?thesis
      unfolding shuffleChildNodes_def Let_def opts_def [symmetric] sortedOptions ks1 fnd
      using Some
      by (simp add: shufflePermutation_def order_def h_def n_def nonopts_def)
  qed
qed

lemma shufflePermutation_perm:
  assumes "case noAnswer of None \<Rightarrow> True | Some j \<Rightarrow> j < n"
  shows "mset (shufflePermutation secret qid n noAnswer) = mset [0..<n]"
proof (cases noAnswer)
  case None
  then show ?thesis unfolding shufflePermutation_def by simp
next
  case (Some j)
  let ?order = "sort_key (optionHash secret qid n) [0..<n]"
  have m: "mset ?order = mset [0..<n]" by simp
  have "mset (filter (\<lambda>i. i \<noteq> j) ?order @ [j]) =
          filter_mset (\<lambda>i. i \<noteq> j) (mset [0..<n]) + {#j#}"
    by (simp only: mset_append mset_filter m) simp
  also have "\<dots> = filter_mset (\<lambda>i. i \<noteq> j) (mset [0..<n]) + filter_mset (\<lambda>i. \<not> i \<noteq> j) (mset [0..<n])"
  proof -
    have "filter_mset (\<lambda>i. \<not> i \<noteq> j) (mset [0..<n]) = {#j#}"
      using assms Some
      by (auto simp: multiset_eq_iff count_mset count_list_0_iff distinct_count_atmost_1)
    then show ?thesis by simp
  qed
  also have "\<dots> = mset [0..<n]" by (rule multiset_partition [symmetric])
  finally show ?thesis using Some unfolding shufflePermutation_def by simp
qed

lemma firstNoAnswer_bound:
  "case firstNoAnswer st opts of None \<Rightarrow> True | Some j \<Rightarrow> j < length opts"
  unfolding firstNoAnswer_def by (auto split: option.splits simp: find_Some_iff)

lemma shuffleChildNodes_perm:
  assumes d: "distinct (map ref_of ks)"
  shows "mset (shuffleChildNodes st secret qid ks) = mset ks"
proof -
  let ?opts = "filter (isE choiceAnswerOptionTypes) ks"
  let ?p = "shufflePermutation secret qid (length ?opts) (firstNoAnswer st ?opts)"
  have b: "case firstNoAnswer st ?opts of None \<Rightarrow> True | Some j \<Rightarrow> j < length ?opts"
    by (rule firstNoAnswer_bound)
  have "mset ?p = mset [0..<length ?opts]"
    by (rule shufflePermutation_perm [OF b])
  then have "mset (map ((!) ?opts) ?p) = image_mset ((!) ?opts) (mset [0..<length ?opts])"
    by (metis mset_map)
  also have "\<dots> = mset ?opts"
    by (metis map_nth mset_map)
  finally show ?thesis
    unfolding shuffleChildNodes_closed [OF d] by (simp add: union_commute)
qed


subsection \<open>The pass over the answers\<close>

lemma isE_updateAt [simp]: "isE names (updateAt r (setChildNodes f) k) = isE names k"
  by (cases k; cases "r = ref_of k") (auto elim: isE.elims)

lemma name_of_updateAt [simp]: "name_of (updateAt r (setChildNodes f) k) = name_of k"
  by (cases k) simp_all

lemma ref_of_updateAt_set [simp]: "ref_of (updateAt r (setChildNodes f) k) = ref_of k"
  by (cases k) simp_all

lemma shuffleChildNodes_Nil [simp]: "shuffleChildNodes st secret qid [] = []"
  unfolding shuffleChildNodes_def sortBy_def indexed_def by simp

lemma childNodes_shuffled:
  "childNodes (setChildNodes (shuffleChildNodes st secret qid) el) =
     shuffleChildNodes st secret qid (childNodes el)"
  by (cases el) simp_all

lemma childNodes_updateAt_other:
  "ref_of el \<noteq> r \<Longrightarrow>
     childNodes (updateAt r (setChildNodes f) el) = map (updateAt r (setChildNodes f)) (childNodes el)"
  by (cases el) auto

lemma shuffle_lab_form:
  fixes lab :: "node \<Rightarrow> ref \<times> bool"
  defines "lab \<equiv> \<lambda>k. (ref_of k, isE choiceAnswerOptionTypes k)"
  assumes d: "distinct (map ref_of ks)"
  shows "map lab (shuffleChildNodes st secret qid ks) =
           (let LO = filter snd (map lab ks)
            in filter (\<lambda>l. \<not> snd l) (map lab ks) @
               map ((!) LO)
                 (shufflePermutation secret qid (length LO)
                    (find (\<lambda>i. attr_get st (fst (LO ! i)) ''type'' = Some ''no-answer'')
                       [0..<length LO])))"
proof -
  define opts where "opts = filter (isE choiceAnswerOptionTypes) ks"
  define LO where "LO = filter snd (map lab ks)"
  define p where "p = shufflePermutation secret qid (length opts) (firstNoAnswer st opts)"
  have LO: "LO = map lab opts"
    unfolding LO_def opts_def lab_def by (simp add: filter_map comp_def)
  have len: "length LO = length opts" using LO by simp
  have non: "map lab (filter (\<lambda>k. \<not> isE choiceAnswerOptionTypes k) ks) =
               filter (\<lambda>l. \<not> snd l) (map lab ks)"
    unfolding lab_def by (simp add: filter_map comp_def)
  have fna: "firstNoAnswer st opts =
               find (\<lambda>i. attr_get st (fst (LO ! i)) ''type'' = Some ''no-answer'') [0..<length LO]"
    unfolding firstNoAnswer_def len
    by (rule find_cong [OF refl]) (simp add: LO lab_def)
  have b: "case firstNoAnswer st opts of None \<Rightarrow> True | Some j \<Rightarrow> j < length opts"
    by (rule firstNoAnswer_bound)
  have "mset p = mset [0..<length opts]"
    unfolding p_def by (rule shufflePermutation_perm [OF b])
  then have pset: "set p = {0..<length opts}" by (metis mset_eq_setD set_upt)
  have sel: "map lab (map ((!) opts) p) = map ((!) LO) p"
    unfolding LO using pset by simp
  have "map lab (shuffleChildNodes st secret qid ks) =
          filter (\<lambda>l. \<not> snd l) (map lab ks) @ map ((!) LO) p"
    unfolding shuffleChildNodes_closed [OF d] opts_def [symmetric] p_def [symmetric]
    using non sel by simp
  then show ?thesis
    unfolding Let_def LO_def [symmetric] p_def fna len by simp
qed

lemma shuffle_lab_cong:
  assumes "map (\<lambda>k. (ref_of k, isE choiceAnswerOptionTypes k)) ks1 =
           map (\<lambda>k. (ref_of k, isE choiceAnswerOptionTypes k)) ks"
    and d: "distinct (map ref_of ks)"
  shows "map (\<lambda>k. (ref_of k, isE choiceAnswerOptionTypes k)) (shuffleChildNodes st secret qid ks1) =
         map (\<lambda>k. (ref_of k, isE choiceAnswerOptionTypes k)) (shuffleChildNodes st secret qid ks)"
proof -
  have "map fst (map (\<lambda>k. (ref_of k, isE choiceAnswerOptionTypes k)) ks1) =
        map fst (map (\<lambda>k. (ref_of k, isE choiceAnswerOptionTypes k)) ks)"
    using assms(1) by simp
  then have "map ref_of ks1 = map ref_of ks" by (simp add: comp_def)
  then have d1: "distinct (map ref_of ks1)" using d by simp
  show ?thesis
    unfolding shuffle_lab_form [OF d] shuffle_lab_form [OF d1] assms(1) ..
qed

lemma lookup_distinct:
  "lookup r t = Some n \<Longrightarrow> distinct (refs t) \<Longrightarrow> distinct (refs n)"
  "lookup_list r ks = Some n \<Longrightarrow> distinct (refsL ks) \<Longrightarrow> distinct (refs n)"
  by (induction r t and r ks rule: lookup_lookup_list.induct)
     (auto split: if_splits option.splits)

lemma lookup_children_distinct:
  assumes "lookup r t = Some el" and "distinct (refs t)"
  shows "distinct (map ref_of (childNodes el))"
proof -
  have "distinct (refs el)" using lookup_distinct(1) [OF assms] .
  then have "distinct (refsL (childNodes el))" by (cases el) simp_all
  then show ?thesis by (rule distinct_refsL_children)
qed

lemma shuffle_fold:
  assumes "distinct (refs t)" and "distinct rs"
    and "\<forall>r \<in> set rs. attr_get st r ''question-id'' \<noteq> None"
  shows "\<exists>t'. forEachNode (shuffleAnswer st secret) rs t = Some t' \<and> distinct (refs t') \<and>
           mset (refs t') = mset (refs t) \<and>
           (\<forall>r el. lookup r t = Some el \<longrightarrow>
              (\<exists>el'. lookup r t' = Some el' \<and> name_of el' = name_of el \<and>
                 map (\<lambda>k. (ref_of k, isE choiceAnswerOptionTypes k)) (childNodes el') =
                 map (\<lambda>k. (ref_of k, isE choiceAnswerOptionTypes k))
                   (if r \<in> set rs
                    then shuffleChildNodes st secret (the (attr_get st r ''question-id'')) (childNodes el)
                    else childNodes el)))"
  using assms
proof (induction rs arbitrary: t)
  case Nil
  then show ?case by simp
next
  case (Cons r0 rs)
  obtain qid where qid: "attr_get st r0 ''question-id'' = Some qid" using Cons.prems(3) by auto
  let ?f = "shuffleChildNodes st secret qid"
  let ?lab = "\<lambda>k. (ref_of k, isE choiceAnswerOptionTypes k)"
  define t1 where "t1 = updateAt r0 (setChildNodes ?f) t"
  have perm: "\<And>ks. distinct (map ref_of ks) \<Longrightarrow> mset (?f ks) = mset ks"
    by (rule shuffleChildNodes_perm)
  have step: "shuffleAnswer st secret r0 t = Some t1"
    unfolding shuffleAnswer_def getAttribute_def t1_def using qid by simp
  have d1: "distinct (refs t1)"
    unfolding t1_def using distinct_updateAt [of ?f t r0] perm Cons.prems(1) by blast
  have m1: "mset (refs t1) = mset (refs t)"
    unfolding t1_def using refs_updateAt_mset_both(1) [of ?f t r0] perm Cons.prems(1) by blast
  have look1: "lookup r t1 = map_option (if r = r0 then setChildNodes ?f else updateAt r0 (setChildNodes ?f)) (lookup r t)" for r
    unfolding t1_def using lookup_updateAt_both(1) [of ?f t r r0] perm Cons.prems(1) by blast
  have "distinct rs" "\<forall>r \<in> set rs. attr_get st r ''question-id'' \<noteq> None" "r0 \<notin> set rs"
    using Cons.prems by auto
  from Cons.IH [OF d1 this(1,2)] obtain t' where
    H: "forEachNode (shuffleAnswer st secret) rs t1 = Some t' \<and> distinct (refs t') \<and>
        mset (refs t') = mset (refs t1) \<and>
        (\<forall>r el. lookup r t1 = Some el \<longrightarrow>
           (\<exists>el'. lookup r t' = Some el' \<and> name_of el' = name_of el \<and>
              map ?lab (childNodes el') =
              map ?lab (if r \<in> set rs
                        then shuffleChildNodes st secret (the (attr_get st r ''question-id'')) (childNodes el)
                        else childNodes el)))" ..
  note run = H [THEN conjunct1]
  note dt' = H [THEN conjunct2, THEN conjunct1]
  note mt' = H [THEN conjunct2, THEN conjunct2, THEN conjunct1]
  note inv = H [THEN conjunct2, THEN conjunct2, THEN conjunct2, rule_format]
  have main: "\<exists>el'. lookup r t' = Some el' \<and> name_of el' = name_of el \<and>
                 map ?lab (childNodes el') =
                 map ?lab (if r \<in> set (r0 # rs)
                           then shuffleChildNodes st secret (the (attr_get st r ''question-id'')) (childNodes el)
                           else childNodes el)"
    if el: "lookup r t = Some el" for r el
  proof (cases "r = r0")
    case True
    have l1: "lookup r t1 = Some (setChildNodes ?f el)" using look1 [of r] el True by simp
    from inv [OF l1] obtain el' where
      e: "lookup r t' = Some el' \<and> name_of el' = name_of (setChildNodes ?f el) \<and>
          map ?lab (childNodes el') =
          map ?lab (if r \<in> set rs
                    then shuffleChildNodes st secret (the (attr_get st r ''question-id''))
                           (childNodes (setChildNodes ?f el))
                    else childNodes (setChildNodes ?f el))" ..
    have "r \<notin> set rs" using True \<open>r0 \<notin> set rs\<close> by simp
    then have "map ?lab (childNodes el') = map ?lab (?f (childNodes el))"
      using e childNodes_shuffled [of st secret qid el] by simp
    then show ?thesis using e True qid by auto
  next
    case False
    have rel: "ref_of el = r" using lookup_ref(1) [OF el] by simp
    let ?el1 = "updateAt r0 (setChildNodes ?f) el"
    have l1: "lookup r t1 = Some ?el1" using look1 [of r] el False by simp
    have labs: "map ?lab (childNodes ?el1) = map ?lab (childNodes el)"
      using childNodes_updateAt_other [of el r0 ?f] rel False by (simp add: comp_def)
    from inv [OF l1] obtain el' where
      e: "lookup r t' = Some el' \<and> name_of el' = name_of ?el1 \<and>
          map ?lab (childNodes el') =
          map ?lab (if r \<in> set rs
                    then shuffleChildNodes st secret (the (attr_get st r ''question-id'')) (childNodes ?el1)
                    else childNodes ?el1)" ..
    have dk: "distinct (map ref_of (childNodes el))"
      using lookup_children_distinct [OF el Cons.prems(1)] .
    have "map ?lab (childNodes el') =
            map ?lab (if r \<in> set rs
                      then shuffleChildNodes st secret (the (attr_get st r ''question-id'')) (childNodes el)
                      else childNodes el)"
    proof (cases "r \<in> set rs")
      case True
      then show ?thesis
        using e shuffle_lab_cong [OF labs dk, of st secret "the (attr_get st r ''question-id'')"]
        by simp
    next
      case False
      then show ?thesis using e labs by simp
    qed
    then show ?thesis using e False by auto
  qed
  have "forEachNode (shuffleAnswer st secret) (r0 # rs) t = Some t'"
    using step run by simp
  moreover have "mset (refs t') = mset (refs t)" using mt' m1 by simp
  ultimately show ?case using dt' main by blast
qed


text \<open>
  C3 (amended). With a shuffle secret, every answer of the exam structure has its options
  moved behind its other child nodes, in the ascending order of the SHA-256 keys of
  option count, question id, original position and secret, and then the first option
  marked \<^verbatim>\<open>type="no-answer"\<close> moved to the very end: the positions are those of
  \<open>shufflePermutation\<close>, a function of the secret, the question id, the number of
  options and the position of that no-answer option. This holds for the choice and
  dropdown answers that are not marked \<^verbatim>\<open>ordering="fixed"\<close>; the child nodes of every
  other element, those of a fixed answer among them, keep their order. The references
  of the document are pairwise distinct and every answer carries a question id.
\<close>

theorem shuffleAnswerOptions_permutation:
  assumes dist: "distinct (refs tree)"
    and ans: "distinct (map a_element (answers ex))"
    and ids: "\<forall>a \<in> set (answers ex). attr_get st (a_element a) ''question-id'' \<noteq> None"
  shows "\<exists>tree'. shuffleAnswerOptions ex secret tree st = Some tree' \<and>
           (\<forall>r el. lookup r tree = Some el \<longrightarrow>
              (\<exists>el'. lookup r tree' = Some el' \<and>
                 map ref_of (childNodes el') =
                   (if r \<in> a_element ` set (answers ex) \<and> name_of el \<in> set choiceAnswerTypes \<and>
                       attr_get st r ''ordering'' \<noteq> Some ''fixed''
                    then map ref_of (filter (\<lambda>k. \<not> isE choiceAnswerOptionTypes k) (childNodes el)) @
                         map (\<lambda>i. ref_of (filter (isE choiceAnswerOptionTypes) (childNodes el) ! i))
                           (shufflePermutation secret (the (attr_get st r ''question-id''))
                              (length (filter (isE choiceAnswerOptionTypes) (childNodes el)))
                              (firstNoAnswer st (filter (isE choiceAnswerOptionTypes) (childNodes el))))
                    else map ref_of (childNodes el))))"
proof -
  let ?lab = "\<lambda>k. (ref_of k, isE choiceAnswerOptionTypes k)"
  define rs where "rs = filter (shuffleTarget tree st) (map a_element (answers ex))"
  have drs: "distinct rs" unfolding rs_def using ans by simp
  have irs: "\<forall>r \<in> set rs. attr_get st r ''question-id'' \<noteq> None"
    unfolding rs_def using ids by auto
  from shuffle_fold [OF dist drs irs, of secret] obtain tree' where
    H: "forEachNode (shuffleAnswer st secret) rs tree = Some tree' \<and> distinct (refs tree') \<and>
        mset (refs tree') = mset (refs tree) \<and>
        (\<forall>r el. lookup r tree = Some el \<longrightarrow>
           (\<exists>el'. lookup r tree' = Some el' \<and> name_of el' = name_of el \<and>
              map ?lab (childNodes el') =
              map ?lab (if r \<in> set rs
                        then shuffleChildNodes st secret (the (attr_get st r ''question-id'')) (childNodes el)
                        else childNodes el)))" ..
  note run = H [THEN conjunct1]
  note inv = H [THEN conjunct2, THEN conjunct2, THEN conjunct2, rule_format]
  have main: "\<exists>el'. lookup r tree' = Some el' \<and>
                 map ref_of (childNodes el') =
                   (if r \<in> a_element ` set (answers ex) \<and> name_of el \<in> set choiceAnswerTypes \<and>
                       attr_get st r ''ordering'' \<noteq> Some ''fixed''
                    then map ref_of (filter (\<lambda>k. \<not> isE choiceAnswerOptionTypes k) (childNodes el)) @
                         map (\<lambda>i. ref_of (filter (isE choiceAnswerOptionTypes) (childNodes el) ! i))
                           (shufflePermutation secret (the (attr_get st r ''question-id''))
                              (length (filter (isE choiceAnswerOptionTypes) (childNodes el)))
                              (firstNoAnswer st (filter (isE choiceAnswerOptionTypes) (childNodes el))))
                    else map ref_of (childNodes el))"
    if el: "lookup r tree = Some el" for r el
  proof -
    from inv [OF el] obtain el' where
      e: "lookup r tree' = Some el' \<and> name_of el' = name_of el \<and>
          map ?lab (childNodes el') =
          map ?lab (if r \<in> set rs
                    then shuffleChildNodes st secret (the (attr_get st r ''question-id'')) (childNodes el)
                    else childNodes el)" ..
    have "map fst (map ?lab (childNodes el')) =
          map fst (map ?lab (if r \<in> set rs
                    then shuffleChildNodes st secret (the (attr_get st r ''question-id'')) (childNodes el)
                    else childNodes el))"
      using e by simp
    then have kids: "map ref_of (childNodes el') =
          map ref_of (if r \<in> set rs
                    then shuffleChildNodes st secret (the (attr_get st r ''question-id'')) (childNodes el)
                    else childNodes el)"
      by (simp add: comp_def)
    have target: "(r \<in> set rs) =
                  (r \<in> a_element ` set (answers ex) \<and> name_of el \<in> set choiceAnswerTypes \<and>
                   attr_get st r ''ordering'' \<noteq> Some ''fixed'')"
      unfolding rs_def shuffleTarget_def getAttribute_def using el by auto
    have dk: "distinct (map ref_of (childNodes el))"
      using lookup_children_distinct [OF el dist] .
    show ?thesis
      using e kids
      unfolding target shuffleChildNodes_closed [OF dk]
      by (auto simp: comp_def)
  qed
  have "shuffleAnswerOptions ex secret tree st = Some tree'"
    unfolding shuffleAnswerOptions_def rs_def [symmetric] using run .
  then show ?thesis using main by blast
qed

theorem shuffleAnswerOptions_permutation_witness:
  "distinct (refs treeT) \<and> distinct (map a_element (answers examT)) \<and>
   list_all (\<lambda>a. attr_get storeA (a_element a) ''question-id'' \<noteq> None) (answers examT) \<and>
   (\<exists>tree'. shuffleAnswerOptions examT ''s'' treeT storeA = Some tree' \<and>
      (\<exists>el'. lookup 3 tree' = Some el' \<and> map ref_of (childNodes el') = [5, 4]))"
proof -
  have d: "distinct (refs treeT)" unfolding treeT_def by simp
  have a: "distinct (map a_element (answers examT))" unfolding examT_def by simp
  have i: "\<forall>a \<in> set (answers examT). attr_get storeA (a_element a) ''question-id'' \<noteq> None"
    unfolding examT_def storeA_def attr_get_def by simp
  have el: "lookup 3 treeT =
              Some (Element 3 NsE ''choice-answer''
                     [Element 4 NsE ''choice-answer-option'' [Text 6 ''yes''],
                      Element 5 NsE ''choice-answer-option'' [Text 7 ''no'']])"
    unfolding treeT_def by simp
  have fna: "firstNoAnswer storeA
               [Element 4 NsE ''choice-answer-option'' [Text 6 ''yes''],
                Element 5 NsE ''choice-answer-option'' [Text 7 ''no'']] = Some 0"
    unfolding firstNoAnswer_def storeA_def emptyStore_def attr_get_def
    by (simp add: upt_rec)
  have p: "shufflePermutation ''s'' ''1'' (Suc (Suc 0)) (Some 0) = [Suc 0, 0]"
    unfolding shufflePermutation_def by simp
  from shuffleAnswerOptions_permutation [OF d a i, of "''s''"] obtain tree' where
    t: "shuffleAnswerOptions examT ''s'' treeT storeA = Some tree'"
    and r: "\<And>r el. lookup r treeT = Some el \<Longrightarrow>
              (\<exists>el'. lookup r tree' = Some el' \<and>
                 map ref_of (childNodes el') =
                   (if r \<in> a_element ` set (answers examT) \<and> name_of el \<in> set choiceAnswerTypes \<and>
                       attr_get storeA r ''ordering'' \<noteq> Some ''fixed''
                    then map ref_of (filter (\<lambda>k. \<not> isE choiceAnswerOptionTypes k) (childNodes el)) @
                         map (\<lambda>i. ref_of (filter (isE choiceAnswerOptionTypes) (childNodes el) ! i))
                           (shufflePermutation ''s'' (the (attr_get storeA r ''question-id''))
                              (length (filter (isE choiceAnswerOptionTypes) (childNodes el)))
                              (firstNoAnswer storeA (filter (isE choiceAnswerOptionTypes) (childNodes el))))
                    else map ref_of (childNodes el)))"
    by blast
  have x: "\<exists>el'. lookup 3 tree' = Some el' \<and> map ref_of (childNodes el') = [5, 4]"
    using r [OF el] fna p
    by (simp add: examT_def choiceAnswerTypes_def choiceAnswerOptionTypes_def storeA_def
        emptyStore_def attr_get_def)
  have ex: "\<exists>tree'. shuffleAnswerOptions examT ''s'' treeT storeA = Some tree' \<and>
      (\<exists>el'. lookup 3 tree' = Some el' \<and> map ref_of (childNodes el') = [5, 4])"
    by (rule exI [of _ tree'], rule conjI [OF t x])
  have i': "list_all (\<lambda>a. attr_get storeA (a_element a) ''question-id'' \<noteq> None) (answers examT)"
    using i unfolding list_all_iff .
  show ?thesis by (rule conjI [OF d conjI [OF a conjI [OF i' ex]]])
qed

theorem shuffleAnswerOptions_noAnswer_counterexample:
  "attr_get storeA 3 ''question-id'' = attr_get storeB 3 ''question-id'' \<and>
   map_option (\<lambda>t. map_option (\<lambda>el. map ref_of (childNodes el)) (lookup 3 t))
     (shuffleAnswerOptions examT ''s'' treeT storeA) = Some (Some [5, 4]) \<and>
   map_option (\<lambda>t. map_option (\<lambda>el. map ref_of (childNodes el)) (lookup 3 t))
     (shuffleAnswerOptions examT ''s'' treeT storeB) = Some (Some [4, 5])"
  unfolding shuffleAnswerOptions_def shuffleTarget_def shuffleAnswer_def shuffleChildNodes_def
    sortBy_def indexed_def addChild_def getAttribute_def attr_get_def storeA_def storeB_def
    emptyStore_def treeT_def examT_def choiceAnswerTypes_def choiceAnswerOptionTypes_def
  by (simp add: upt_rec Let_def)


text \<open>The digest of a test vector of FIPS 180-4.\<close>

lemma sha256_hex_abc:
  "sha256_hex ''abc'' = ''ba7816bf8f01cfea414140de5dae2223b00361a396177a9cb410ff61f20015ad''"
  by code_simp

end
